theory Spec2Isabelle
  imports Complex_Main "HOL-Library.Word"
begin

section \<open>Data model\<close>

text \<open>
  The programs are C++ hosts of an OpenCL device. A C++ or OpenCL C \<open>int\<close> is a 32-bit
  two's complement integer, modelled as a \<open>32 word\<close>: \<open>+\<close> wraps around, which is what
  the hosts and devices these programs run on compute.

  An \<open>int*\<close> is an address of host memory, counted in \<open>int\<close> cells; \<open>p[i]\<close> is the cell
  at \<open>p + i\<close>. Host memory is a partial map: a cell that is not allocated has no value,
  and reading or writing it is undefined behaviour, which the model reports as a fault.
\<close>

type_synonym int32 = "32 word"
type_synonym addr = nat
type_synonym memory = "addr \<Rightarrow> int32 option"

datatype fault = InvalidAccess | DivisionByZero

subsection \<open>Sequential sum (add.cpp, \<open>seqSumArrays\<close>)\<close>

text \<open>
  \<^verbatim>\<open>for(int i = 0; i < N; i++) { c[i] = a[i] + b[i]; }\<close>
  The counter \<open>i\<close> and the bound \<open>N\<close> are C++ \<open>int\<close>s; \<open>i\<close> only takes values
  from 0 to \<open>N\<close>, so it never overflows and both are modelled as \<open>int\<close>.
\<close>

function seqSumArrays_loop ::
  "addr \<Rightarrow> addr \<Rightarrow> addr \<Rightarrow> int \<Rightarrow> int \<Rightarrow> memory \<Rightarrow> fault + memory" where
  "seqSumArrays_loop a b c N i m =
     (if i < N then
        (case m (a + nat i) of
           None \<Rightarrow> Inl InvalidAccess
         | Some x \<Rightarrow>
            (case m (b + nat i) of
               None \<Rightarrow> Inl InvalidAccess
             | Some y \<Rightarrow>
                (case m (c + nat i) of
                   None \<Rightarrow> Inl InvalidAccess
                 | Some _ \<Rightarrow> seqSumArrays_loop a b c N (i + 1) (m(c + nat i \<mapsto> x + y)))))
      else Inr m)"
  by pat_completeness auto
termination
  by (relation "measure (\<lambda>(a, b, c, N, i, m). nat (N - i))") auto

declare seqSumArrays_loop.simps [simp del]

definition seqSumArrays :: "addr \<Rightarrow> addr \<Rightarrow> addr \<Rightarrow> int \<Rightarrow> memory \<Rightarrow> fault + memory" where
  "seqSumArrays a b c N m = seqSumArrays_loop a b c N 0 m"

subsection \<open>Equality check (add.cpp, \<open>checkEquality\<close>)\<close>

text \<open>
  \<^verbatim>\<open>for(int i = 0; i < N; i++) { if(c1[i] != c2[i]) { return false; } } return true;\<close>
  The function is given the memory and returns it with its answer, as every function
  of the host does in this model; the source never writes through \<open>c1\<close> or \<open>c2\<close>.
\<close>

function checkEquality_loop ::
  "addr \<Rightarrow> addr \<Rightarrow> int \<Rightarrow> int \<Rightarrow> memory \<Rightarrow> fault + bool \<times> memory" where
  "checkEquality_loop c1 c2 N i m =
     (if i < N then
        (case m (c1 + nat i) of
           None \<Rightarrow> Inl InvalidAccess
         | Some x \<Rightarrow>
            (case m (c2 + nat i) of
               None \<Rightarrow> Inl InvalidAccess
             | Some y \<Rightarrow>
                if x \<noteq> y then Inr (False, m)
                else checkEquality_loop c1 c2 N (i + 1) m))
      else Inr (True, m))"
  by pat_completeness auto
termination
  by (relation "measure (\<lambda>(c1, c2, N, i, m). nat (N - i))") auto

declare checkEquality_loop.simps [simp del]

definition checkEquality :: "addr \<Rightarrow> addr \<Rightarrow> int \<Rightarrow> memory \<Rightarrow> fault + bool \<times> memory" where
  "checkEquality c1 c2 N m = checkEquality_loop c1 c2 N 0 m"

subsection \<open>The device: buffers, kernels, programs\<close>

text \<open>
  A buffer is memory owned by the device, here an array of \<open>int\<close>. The kernel of add.cl
  is run once per work-item, with \<open>get_global_id(0)\<close> as its first argument:
  \<^verbatim>\<open>int idx = get_global_id(0); c[idx] = a[idx] + b[idx];\<close>
  It reads the buffers \<open>a\<close> and \<open>b\<close> and writes the buffer \<open>c\<close>; an index outside a
  buffer is undefined behaviour on the device (\<open>None\<close>).
\<close>

type_synonym buffer = "int32 list"
type_synonym kernel = "nat \<Rightarrow> buffer \<Rightarrow> buffer \<Rightarrow> buffer \<Rightarrow> buffer option"
type_synonym cl_program = "(string \<times> kernel) list"

definition add :: kernel where
  "add idx a b c =
     (if idx < length a \<and> idx < length b \<and> idx < length c
      then Some (c[idx := a ! idx + b ! idx]) else None)"

text \<open>The program built from add.cl: its kernels by name. add.cl defines one kernel.\<close>

definition add_cl :: cl_program where
  "add_cl = [(''add'', add)]"

text \<open>
  What the platform decides in one dispatch: the contents of a buffer that was created
  without a copy of host data (OpenCL leaves them undefined), and the order in which the
  device runs the work-items of an N-wide range (a permutation of \<open>0 ..< N\<close>).
\<close>

record device_run =
  uninitialised :: "nat \<Rightarrow> int32"
  schedule :: "nat list"

text \<open>
  A device, with the properties the device-info program queries. A platform is the list
  of its devices, as \<open>getDevices(CL_DEVICE_TYPE_ALL, ...)\<close> reports them.
\<close>

record cl_device =
  info_name :: string
  info_vendor :: string
  info_version :: string
  info_workItems :: "nat list"
  info_workGroups :: nat
  info_computeUnits :: nat
  info_globalMemory :: nat
  info_localMemory :: nat

type_synonym cl_platform = "cl_device list"

text \<open>
  The globals of add.cpp: \<open>program\<close>, \<open>context\<close> and \<open>device\<close>, null (\<open>None\<close>) until
  \<open>initializeDevice\<close> assigns them. A context holds its device.
\<close>

record globals =
  program :: "cl_program option"
  ctxt :: "cl_device option"
  device :: "cl_device option"

subsection \<open>The OpenCL calls of \<open>parSumArrays\<close>\<close>

text \<open>
  The host is compiled without \<open>__CL_ENABLE_EXCEPTIONS\<close>: a call that fails returns an
  error code, which the source ignores, and leaves a null object (\<open>None\<close>). A call on a
  null object fails in turn and does nothing.
\<close>

fun read_array :: "memory \<Rightarrow> addr \<Rightarrow> nat \<Rightarrow> buffer option" where
  "read_array m p 0 = Some []"
| "read_array m p (Suc n) =
     (case m p of
        None \<Rightarrow> None
      | Some x \<Rightarrow> (case read_array m (Suc p) n of None \<Rightarrow> None | Some xs \<Rightarrow> Some (x # xs)))"

fun write_array :: "memory \<Rightarrow> addr \<Rightarrow> buffer \<Rightarrow> memory option" where
  "write_array m p [] = Some m"
| "write_array m p (x # xs) =
     (case m p of None \<Rightarrow> None | Some _ \<Rightarrow> write_array (m(p \<mapsto> x)) (Suc p) xs)"

text \<open>
  \<open>cl::Buffer(context, ... | CL_MEM_COPY_HOST_PTR, N * sizeof(int), p)\<close>: a buffer of
  \<open>N\<close> cells holding a copy of \<open>p[0 .. N-1]\<close>. The size \<open>N * sizeof(int)\<close> is
  unsigned: it is 0 for \<open>N = 0\<close> and beyond every device's limit for \<open>N < 0\<close>, and
  OpenCL rejects both.
\<close>

definition Buffer_copy :: "cl_device option \<Rightarrow> int \<Rightarrow> addr \<Rightarrow> memory \<Rightarrow> fault + buffer option" where
  "Buffer_copy cx N p m =
     (if cx = None \<or> N \<le> 0 then Inr None
      else (case read_array m p (nat N) of
              None \<Rightarrow> Inl InvalidAccess
            | Some xs \<Rightarrow> Inr (Some xs)))"

text \<open>\<open>cl::Buffer(context, CL_MEM_WRITE_ONLY | CL_MEM_HOST_READ_ONLY, N * sizeof(int))\<close>\<close>

definition Buffer :: "cl_device option \<Rightarrow> int \<Rightarrow> (nat \<Rightarrow> int32) \<Rightarrow> buffer option" where
  "Buffer cx N undef =
     (if cx = None \<or> N \<le> 0 then None else Some (map undef [0 ..< nat N]))"

text \<open>\<open>cl::Kernel(program, name)\<close>: the kernel of that name, null when there is none.\<close>

definition Kernel :: "cl_program option \<Rightarrow> string \<Rightarrow> kernel option" where
  "Kernel prog name = (case prog of None \<Rightarrow> None | Some ks \<Rightarrow> map_of ks name)"

text \<open>\<open>cl::CommandQueue(context, device)\<close>\<close>

definition CommandQueue :: "cl_device option \<Rightarrow> cl_device option \<Rightarrow> cl_device option" where
  "CommandQueue cx dev = (if cx = None then None else dev)"

text \<open>The work-items of one dispatch, run in the order of the schedule.\<close>

fun run_items :: "kernel \<Rightarrow> nat list \<Rightarrow> buffer \<Rightarrow> buffer \<Rightarrow> buffer \<Rightarrow> buffer option" where
  "run_items k [] a b c = Some c"
| "run_items k (idx # rest) a b c =
     (case k idx a b c of None \<Rightarrow> None | Some c' \<Rightarrow> run_items k rest a b c')"

text \<open>
  \<open>queue.enqueueNDRangeKernel(kernel, cl::NullRange, cl::NDRange(N))\<close> after
  \<open>kernel.setArg(0, aBuf)\<close>, \<open>setArg(1, bBuf)\<close>, \<open>setArg(2, cBuf)\<close>. With a null
  queue, kernel or argument the call fails and the buffer \<open>c\<close> stays as it is.
\<close>

definition enqueueNDRangeKernel ::
  "cl_device option \<Rightarrow> kernel option \<Rightarrow> buffer option \<Rightarrow> buffer option \<Rightarrow> buffer option \<Rightarrow>
     nat list \<Rightarrow> fault + buffer option" where
  "enqueueNDRangeKernel queue k aBuf bBuf cBuf sched =
     (case (queue, k, aBuf, bBuf, cBuf) of
        (Some _, Some f, Some a, Some b, Some c) \<Rightarrow>
          (case run_items f sched a b c of
             None \<Rightarrow> Inl InvalidAccess
           | Some c' \<Rightarrow> Inr (Some c'))
      | _ \<Rightarrow> Inr cBuf)"

text \<open>
  \<open>queue.enqueueReadBuffer(cBuf, CL_TRUE, 0, N * sizeof(int), c)\<close>: blocks until the
  queue is done, then copies the buffer to \<open>c[0 .. N-1]\<close>.
\<close>

definition enqueueReadBuffer ::
  "cl_device option \<Rightarrow> buffer option \<Rightarrow> addr \<Rightarrow> memory \<Rightarrow> fault + memory" where
  "enqueueReadBuffer queue cBuf c m =
     (case (queue, cBuf) of
        (Some _, Some xs) \<Rightarrow>
          (case write_array m c xs of None \<Rightarrow> Inl InvalidAccess | Some m' \<Rightarrow> Inr m')
      | _ \<Rightarrow> Inr m)"

subsection \<open>Parallel sum (add.cpp, \<open>parSumArrays\<close>)\<close>

text \<open>
  The function copies \<open>a\<close> and \<open>b\<close> into two buffers, creates the output buffer,
  asks the global \<open>program\<close> for the kernel named \<open>sumArrays\<close>, sets the three buffers
  as its arguments, enqueues it over \<open>N\<close> work-items and reads the output buffer back
  into \<open>c\<close>. The dispatch of one call is the parameter \<open>run\<close>.
\<close>

definition parSumArrays ::
  "globals \<Rightarrow> device_run \<Rightarrow> addr \<Rightarrow> addr \<Rightarrow> addr \<Rightarrow> int \<Rightarrow> memory \<Rightarrow> fault + memory" where
  "parSumArrays g run a b c N m =
     (case Buffer_copy (ctxt g) N a m of
        Inl f \<Rightarrow> Inl f
      | Inr aBuf \<Rightarrow>
     (case Buffer_copy (ctxt g) N b m of
        Inl f \<Rightarrow> Inl f
      | Inr bBuf \<Rightarrow>
     (let cBuf = Buffer (ctxt g) N (uninitialised run);
          kernel = Kernel (program g) ''sumArrays'';
          queue = CommandQueue (ctxt g) (device g)
      in (case enqueueNDRangeKernel queue kernel aBuf bBuf cBuf (schedule run) of
            Inl f \<Rightarrow> Inl f
          | Inr cBuf' \<Rightarrow> enqueueReadBuffer queue cBuf' c m))))"

section \<open>The programs\<close>

subsection \<open>Console and environment\<close>

text \<open>
  A stream is the list of the values inserted into it with \<open><<\<close>, in order: text, an
  integer, a \<open>double\<close>, or \<open>std::endl\<close>. The timings are \<open>double\<close>s, modelled as
  reals (rounding is left out). A \<open>double\<close> that is printed is \<open>Some\<close> real number, or
  \<open>None\<close> when the expression has no value: a division by zero, which C++ leaves
  undefined and IEEE 754 answers with an infinity or a NaN.
\<close>

datatype item = Str string | Num int | Dbl "real option" | Endl

record console =
  cout :: "item list"
  cerr :: "item list"

definition fdiv :: "real \<Rightarrow> real \<Rightarrow> real option" where
  "fdiv x y = (if y = 0 then None else Some (x / y))"

definition NL :: char where "NL = CHR 0x0A"
definition TAB :: char where "TAB = CHR 0x09"

text \<open>
  What a run depends on and the source does not fix: the platforms that
  \<open>cl::Platform::get\<close> reports, whether \<open>program.build()\<close> fails (then with which
  build status and log), the values that successive calls of \<open>clock()\<close> return, what the
  platform decides in each dispatch, and the text the device leaves in the buffer of the
  hello-world program (its kernel file hello.cl is not among the sources).
\<close>

record env =
  get_platforms :: "cl_platform list"
  build_failure :: "(int \<times> string) option"
  clock :: "nat \<Rightarrow> int"
  runs :: "nat \<Rightarrow> device_run"
  greeting :: string

text \<open>\<open>CLOCKS_PER_SEC\<close> of \<open>time.h\<close>; POSIX fixes it at one million.\<close>

definition CLOCKS_PER_SEC :: int where
  "CLOCKS_PER_SEC = 1000000"

subsection \<open>Device selection (add.cpp \<open>getDefaultDevice\<close>, hello-world \<open>get_default_device\<close>)\<close>

text \<open>
  The result is \<open>Inr\<close> the device returned, or \<open>Inl\<close> the status given to \<open>exit\<close>,
  with the console as the function leaves it.
\<close>

definition getDefaultDevice :: "cl_platform list \<Rightarrow> console \<Rightarrow> (int + cl_device) \<times> console" where
  "getDefaultDevice platforms con =
     (if platforms = [] then
        (Inl 1, con\<lparr>cerr := cerr con @ [Str ''no platforms found!'', Endl]\<rparr>)
      else
        (let platform = hd platforms;
             devices = platform
         in if devices = [] then
              (Inl 1, con\<lparr>cerr := cerr con @ [Str ''no devices found!'', Endl]\<rparr>)
            else (Inr (hd devices), con)))"

definition get_default_device :: "cl_platform list \<Rightarrow> console \<Rightarrow> (int + cl_device) \<times> console" where
  "get_default_device platforms con =
     (if platforms = [] then
        (Inl 1, con\<lparr>cerr := cerr con @ [Str ''no platforms found!'', Endl]\<rparr>)
      else
        (let platform = hd platforms;
             devices = platform
         in if devices = [] then
              (Inl 1, con\<lparr>cerr := cerr con @ [Str ''no devices found!'', Endl]\<rparr>)
            else (Inr (hd devices), con)))"

subsection \<open>Device initialisation (add.cpp, \<open>initializeDevice\<close>)\<close>

text \<open>
  The kernel file read is add.cl, so a build that succeeds leaves the program \<open>add_cl\<close>
  in the global \<open>program\<close>.
\<close>

definition initializeDevice :: "env \<Rightarrow> globals \<Rightarrow> console \<Rightarrow> (int + globals) \<times> console" where
  "initializeDevice e g con =
     (case getDefaultDevice (get_platforms e) con of
        (Inl st, con') \<Rightarrow> (Inl st, con')
      | (Inr dev, con') \<Rightarrow>
          (case build_failure e of
             Some (build_status, build_log) \<Rightarrow>
               (Inl 1, con'\<lparr>cerr := cerr con' @
                  [Str (''build status:'' @ [TAB] @ '' ''), Num build_status, Endl,
                   Str (''build log   :'' @ [TAB] @ '' ''), Str build_log, Endl]\<rparr>)
           | None \<Rightarrow>
               (Inr (g\<lparr>device := Some dev, ctxt := Some dev, program := Some add_cl\<rparr>), con')))"

subsection \<open>The benchmark (add.cpp, \<open>main\<close>)\<close>

text \<open>
  \<open>std::vector<int> v(n, x)\<close> allocates \<open>n\<close> fresh cells, all \<open>x\<close>. The heap hands
  out the cells from \<open>brk\<close> upwards; address 0 is the null pointer.
\<close>

record heap =
  cells :: memory
  brk :: addr

definition empty_heap :: heap where
  "empty_heap = \<lparr>cells = (\<lambda>p. None), brk = 1\<rparr>"

definition vector :: "nat \<Rightarrow> int32 \<Rightarrow> heap \<Rightarrow> addr \<times> heap" where
  "vector n x h =
     (brk h,
      \<lparr>cells = (\<lambda>p. if brk h \<le> p \<and> p < brk h + n then Some x else cells h p),
       brk = brk h + n\<rparr>)"

text \<open>\<^verbatim>\<open>for(int i = 0; i < n; i++) body(i)\<close>, stopping at a fault.\<close>

primrec for_upto :: "nat \<Rightarrow> (nat \<Rightarrow> 's \<Rightarrow> fault + 's) \<Rightarrow> 's \<Rightarrow> fault + 's" where
  "for_upto 0 body m = Inr m"
| "for_upto (Suc n) body m =
     (case for_upto n body m of Inl f \<Rightarrow> Inl f | Inr m' \<Rightarrow> body n m')"

text \<open>
  The calls that \<open>main\<close> makes are recorded in the order in which it makes them: a call
  that returns is appended to the record when it returns, and the call of
  \<open>initializeDevice\<close>, which may end the process, when it is made.
\<close>

datatype call = Called_seqSumArrays | Called_initializeDevice | Called_parSumArrays
  | Called_checkEquality

definition logged ::
  "call \<Rightarrow> (memory \<Rightarrow> fault + memory) \<Rightarrow> memory \<times> call list \<Rightarrow> fault + memory \<times> call list" where
  "logged c f = (\<lambda>(m, tr). case f m of Inl x \<Rightarrow> Inl x | Inr m' \<Rightarrow> Inr (m', tr @ [c]))"

definition EXECUTIONS :: nat where
  "EXECUTIONS = 10"

definition ARRAYS_DIM :: int where
  "ARRAYS_DIM = push_bit 20 1"

text \<open>
  How the process ends: the exit status, the console, the memory, where the data of
  the vectors \<open>cs\<close> and \<open>cp\<close> is, and the calls that \<open>main\<close> has made.
\<close>

record exited =
  status :: int
  streams :: console
  mem :: memory
  cs_data :: addr
  cp_data :: addr
  calls :: "call list"

definition main :: "env \<Rightarrow> fault + exited" where
  "main e =
     (let con = \<lparr>cout = [], cerr = []\<rparr>;
          g = \<lparr>program = None, ctxt = None, device = None\<rparr>;
          (a, h) = vector (nat ARRAYS_DIM) 3 empty_heap;
          (b, h) = vector (nat ARRAYS_DIM) 5 h;
          (cs, h) = vector (nat ARRAYS_DIM) 0 h;
          (cp, h) = vector (nat ARRAYS_DIM) 0 h;
          m = cells h;
          start = clock e 0
      in (case for_upto EXECUTIONS
                 (\<lambda>i. logged Called_seqSumArrays (seqSumArrays a b cs ARRAYS_DIM)) (m, []) of
            Inl f \<Rightarrow> Inl f
          | Inr (m, tr) \<Rightarrow>
     (let end = clock e 1;
          seqTime = (10000 * real_of_int (end - start)) / real_of_int CLOCKS_PER_SEC
                      / real EXECUTIONS;
          tr = tr @ [Called_initializeDevice]
      in (case initializeDevice e g con of
            (Inl st, con) \<Rightarrow>
              Inr \<lparr>status = st, streams = con, mem = m, cs_data = cs, cp_data = cp,
                   calls = tr\<rparr>
          | (Inr g, con) \<Rightarrow>
     (let start = clock e 2
      in (case for_upto EXECUTIONS
                 (\<lambda>i. logged Called_parSumArrays (parSumArrays g (runs e i) a b cp ARRAYS_DIM))
                 (m, tr) of
            Inl f \<Rightarrow> Inl f
          | Inr (m, tr) \<Rightarrow>
     (let end = clock e 3;
          parTime = (10000 * real_of_int (end - start)) / real_of_int CLOCKS_PER_SEC
                      / real EXECUTIONS
      in (case checkEquality cs cp ARRAYS_DIM m of
            Inl f \<Rightarrow> Inl f
          | Inr (equal, m) \<Rightarrow>
     (case (m a, m b, m cp) of
        (Some a0, Some b0, Some cp0) \<Rightarrow>
          Inr \<lparr>status = 0,
               streams = con\<lparr>cout := cout con @
                 [Str ''status: '', Str (if equal then ''SUCCESS!'' else ''FAILED!''), Endl,
                  Str (''results: '' @ [NL, TAB] @ ''a[0] = ''), Num (sint a0),
                  Str ([NL, TAB] @ ''b[0] = ''), Num (sint b0),
                  Str ([NL, TAB] @ ''c[0] = a[0] + b[0] = ''), Num (sint cp0), Endl,
                  Str (''mean execution time: '' @ [NL, TAB] @ ''sequential: ''),
                  Dbl (Some seqTime),
                  Str ('' ms;'' @ [NL, TAB] @ ''parallel: ''), Dbl (Some parTime),
                  Str '' ms.'', Endl,
                  Str ''performance gain: '',
                  Dbl (fdiv (100 * (seqTime - parTime)) parTime),
                  Str (''%'' @ [NL])]\<rparr>,
               mem = m, cs_data = cs, cp_data = cp,
               calls = tr @ [Called_checkEquality]\<rparr>
      | _ \<Rightarrow> Inl InvalidAccess)))))))))"

subsection \<open>The hello-world program (\<open>main\<close> of the second unnamed source)\<close>

text \<open>
  After the build the program runs the kernel \<open>hello\<close> as one task, reads the buffer of 16
  characters back and prints it. The kernel is in hello.cl, which is not among the
  sources; the text it leaves in the buffer comes from the environment.
\<close>

definition hello_main :: "env \<Rightarrow> int \<times> console" where
  "hello_main e =
     (let con = \<lparr>cout = [], cerr = []\<rparr>
      in (case get_default_device (get_platforms e) con of
            (Inl st, con) \<Rightarrow> (st, con)
          | (Inr dev, con) \<Rightarrow>
              (case build_failure e of
                 Some (build_status, build_log) \<Rightarrow>
                   (1, con\<lparr>cerr := cerr con @
                      [Str (''build status:'' @ [TAB] @ '' ''), Num build_status, Endl,
                       Str (''build log   :'' @ [TAB] @ '' ''), Str build_log, Endl]\<rparr>)
               | None \<Rightarrow> (0, con\<lparr>cout := cout con @ [Str (greeting e)]\<rparr>))))"

subsection \<open>The device-info program (\<open>main\<close> of the first unnamed source)\<close>

text \<open>
  \<open>workItems[0]\<close>, \<open>[1]\<close>, \<open>[2]\<close> index a vector and \<open>localMemory/computeUnits\<close> is an
  integer division: outside the vector, or by zero, the behaviour is undefined.
\<close>

definition info_main :: "env \<Rightarrow> fault + int \<times> console" where
  "info_main e =
     (let con = \<lparr>cout = [], cerr = []\<rparr>;
          platforms = get_platforms e
      in if platforms = [] then
           Inr (- 1, con\<lparr>cerr := cerr con @ [Str ''no platforms found!'', Endl]\<rparr>)
         else
           (let platform = hd platforms;
                devices = platform
            in if devices = [] then
                 Inr (- 1, con\<lparr>cerr := cerr con @ [Str ''no devices found!'', Endl]\<rparr>)
               else
                 (let dev = hd devices;
                      name = info_name dev;
                      vendor = info_vendor dev;
                      version = info_version dev;
                      workItems = info_workItems dev;
                      workGroups = info_workGroups dev;
                      computeUnits = info_computeUnits dev;
                      globalMemory = info_globalMemory dev;
                      localMemory = info_localMemory dev
                  in if length workItems < 3 then Inl InvalidAccess
                     else if computeUnits = 0 then Inl DivisionByZero
                     else
                       Inr (0, con\<lparr>cout := cout con @
                         [Str ''OpenCL device info:'',
                          Str ('' '' @ [NL] @ '' name: ''), Str name,
                          Str ('' '' @ [NL] @ '' vendor: ''), Str vendor,
                          Str ('' '' @ [NL] @ '' version: ''), Str version,
                          Str ('' '' @ [NL] @ '' max size of work-items: (''),
                          Num (int (workItems ! 0)), Str '','', Num (int (workItems ! 1)),
                          Str '','', Num (int (workItems ! 2)), Str '')'',
                          Str ('' '' @ [NL] @ '' max size of work-groups: ''),
                          Num (int workGroups),
                          Str ('' '' @ [NL] @ '' number of compute units: ''),
                          Num (int computeUnits),
                          Str ('' '' @ [NL] @ '' nlobal memory size (bytes): ''),
                          Num (int globalMemory),
                          Str ('' '' @ [NL] @ '' local memory size per compute unit (bytes): ''),
                          Num (int (localMemory div computeUnits)),
                          Endl]\<rparr>))))"

subsection \<open>The device selector as the specification words it\<close>

text \<open>
  Section 4.1 of the specification: fail with \<open>NoPlatformAvailable\<close> if no platform is
  enumerated; pick the first platform and fail with \<open>NoDeviceAvailable\<close> if it has no
  device; return its first device. The source has no error values: it prints a line to
  the diagnostic stream and exits with a status, which \<open>diagnostic\<close> records for
  each failure of the specification.
\<close>

datatype failure = NoPlatformAvailable | NoDeviceAvailable

fun select_device :: "cl_platform list \<Rightarrow> failure + cl_device" where
  "select_device [] = Inl NoPlatformAvailable"
| "select_device ([] # ps) = Inl NoDeviceAvailable"
| "select_device ((d # ds) # ps) = Inr d"

fun diagnostic :: "failure \<Rightarrow> item list" where
  "diagnostic NoPlatformAvailable = [Str ''no platforms found!'', Endl]"
| "diagnostic NoDeviceAvailable = [Str ''no devices found!'', Endl]"

subsection \<open>Example inputs\<close>

text \<open>
  The scenario of the specification, \<open>a = [3,3,3,3]\<close> and \<open>b = [5,5,5,5]\<close>, with an
  output array of four zeros: \<open>a\<close> is at address 1, \<open>b\<close> at 5 and \<open>c\<close> at 9.
\<close>

definition scenario_memory :: memory where
  "scenario_memory =
     cells (snd (vector 4 0 (snd (vector 4 5 (snd (vector 4 3 empty_heap))))))"

text \<open>Two arrays of three cells at addresses 1 and 4; the second one ends after two cells.\<close>

definition mismatch_memory :: memory where
  "mismatch_memory = [1 \<mapsto> 8, 2 \<mapsto> 8, 3 \<mapsto> 8, 4 \<mapsto> 8, 5 \<mapsto> 7]"

text \<open>A device, and the globals of add.cpp once \<open>initializeDevice\<close> has returned for it.\<close>

definition device_A :: cl_device where
  "device_A =
     \<lparr>info_name = ''A'', info_vendor = ''V'', info_version = ''OpenCL 1.2'',
      info_workItems = [1024, 1024, 64], info_workGroups = 1024, info_computeUnits = 8,
      info_globalMemory = 1073741824, info_localMemory = 32768\<rparr>"

definition built :: globals where
  "built = \<lparr>program = Some add_cl, ctxt = Some device_A, device = Some device_A\<rparr>"

text \<open>
  Two dispatches over four work-items: one finds zeros in a fresh buffer and runs the
  work-items in order, the other finds the value 57005 and runs them in reverse.
\<close>

definition zero_run :: device_run where
  "zero_run = \<lparr>uninitialised = (\<lambda>i. 0), schedule = [0, 1, 2, 3]\<rparr>"

definition junk_run :: device_run where
  "junk_run = \<lparr>uninitialised = (\<lambda>i. 57005), schedule = [3, 2, 1, 0]\<rparr>"

text \<open>
  Environments: one with a device and a build that succeeds, where the clock reads 0,
  52000, 60000 and 73000; the same with a clock that does not advance during the parallel
  runs; one with no platform; one whose only platform has no device; one where the build
  fails.
\<close>

definition working_env :: env where
  "working_env =
     \<lparr>get_platforms = [[device_A]], build_failure = None,
      clock = (\<lambda>k. [0, 52000, 60000, 73000] ! k),
      runs = (\<lambda>i. \<lparr>uninitialised = (\<lambda>j. 0), schedule = [0 ..< nat ARRAYS_DIM]\<rparr>),
      greeting = ''Hello, World!''\<rparr>"

definition instant_env :: env where
  "instant_env = working_env\<lparr>clock := (\<lambda>k. [0, 52000, 60000, 60000] ! k)\<rparr>"

definition no_platform_env :: env where
  "no_platform_env = working_env\<lparr>get_platforms := []\<rparr>"

definition no_device_env :: env where
  "no_device_env = working_env\<lparr>get_platforms := [[]]\<rparr>"

definition broken_build_env :: env where
  "broken_build_env = working_env\<lparr>build_failure := Some (- 2, ''error: syntax'')\<rparr>"

subsection \<open>Fatal precondition failures\<close>

text \<open>
  The fatal precondition failures the specification names: no platform, no device (on
  the first platform), build failure.
\<close>

definition no_device :: "env \<Rightarrow> bool" where
  "no_device e = (get_platforms e = [] \<or> hd (get_platforms e) = [])"

definition fatal :: "env \<Rightarrow> bool" where
  "fatal e = (no_device e \<or> build_failure e \<noteq> None)"

section \<open>Properties\<close>

subsection \<open>Arrays in memory\<close>

lemma read_array_iff:
  "read_array m p n = Some xs \<longleftrightarrow> length xs = n \<and> (\<forall>i<n. m (p + i) = Some (xs ! i))"
proof (induction n arbitrary: p xs)
  case 0
  then show ?case by auto
next
  case (Suc n)
  show ?case
  proof (cases "m p")
    case None
    then show ?thesis by (auto intro: exI[of _ 0])
  next
    case (Some x)
    show ?thesis
    proof (cases "read_array m (Suc p) n")
      case None
      have "\<not> (length (tl xs) = n \<and> (\<forall>i<n. m (Suc p + i) = Some (tl xs ! i)))"
        using Suc.IH[of "Suc p" "tl xs"] None by simp
      then show ?thesis using None Some
        apply (cases xs)
         apply simp
        apply (auto simp: nth_Cons split: nat.splits)
        done
    next
      case Some2: (Some ys)
      then have ys: "length ys = n" "\<forall>i<n. m (Suc p + i) = Some (ys ! i)"
        using Suc.IH[of "Suc p" ys] by auto
      show ?thesis
      proof
        assume "read_array m p (Suc n) = Some xs"
        then have "xs = x # ys" using Some Some2 by simp
        then show "length xs = Suc n \<and> (\<forall>i<Suc n. m (p + i) = Some (xs ! i))"
          using ys Some by (auto simp: nth_Cons split: nat.splits)
      next
        assume a: "length xs = Suc n \<and> (\<forall>i<Suc n. m (p + i) = Some (xs ! i))"
        then obtain z zs where xs: "xs = z # zs" by (cases xs) auto
        have "z = x" using a Some xs by (auto dest: spec[of _ 0])
        moreover have "length zs = n \<and> (\<forall>i<n. m (Suc p + i) = Some (zs ! i))"
          using a xs by (auto dest: spec[of _ "Suc i" for i])
        then have "read_array m (Suc p) n = Some zs" using Suc.IH[of "Suc p" zs] by simp
        ultimately show "read_array m p (Suc n) = Some xs" using Some xs by simp
      qed
    qed
  qed
qed

subsection \<open>The sequential sum\<close>

text \<open>
  The sum of two \<open>int\<close>s wraps around. Where the mathematical sum is an \<open>int\<close>, the only
  case in which C++ defines the addition, the model computes that sum.
\<close>

lemma int32_add_exact:
  fixes x y :: int32
  assumes "- (2 ^ 31) \<le> sint x + sint y" and "sint x + sint y < 2 ^ 31"
  shows "sint (x + y) = sint x + sint y"
proof -
  have "sint (x + y) = signed_take_bit 31 (sint x + sint y)"
    by (simp add: sint_word_add)
  also have "\<dots> = sint x + sint y"
    using assms by (simp add: signed_take_bit_int_eq_self)
  finally show ?thesis .
qed

lemma seqSumArrays_loop_sums:
  assumes n: "n = nat N"
    and ca: "c \<le> a \<or> a + n \<le> c" and cb: "c \<le> b \<or> b + n \<le> c"
  shows "k = nat (N - i) \<Longrightarrow> 0 \<le> i \<Longrightarrow>
     (\<forall>j. nat i \<le> j \<and> j < n \<longrightarrow>
        m (a + j) = Some (as ! j) \<and> m (b + j) = Some (bs ! j) \<and> m (c + j) \<noteq> None) \<Longrightarrow>
     seqSumArrays_loop a b c N i m =
       Inr (\<lambda>p. if c + nat i \<le> p \<and> p < c + n then Some (as ! (p - c) + bs ! (p - c)) else m p)"
proof (induction k arbitrary: i m)
  case 0
  then have "N \<le> i" by simp
  then have "c + n \<le> c + nat i" using n by simp
  then have "(\<lambda>p. if c + nat i \<le> p \<and> p < c + n then Some (as ! (p - c) + bs ! (p - c)) else m p) = m"
    by (auto intro!: ext)
  then show ?case using \<open>N \<le> i\<close> by (simp add: seqSumArrays_loop.simps)
next
  case (Suc k)
  then have lt: "i < N" and i: "0 \<le> i" by simp_all
  then have in_range: "nat i < n" using n by simp
  let ?i = "nat i"
  let ?m1 = "m(c + ?i \<mapsto> as ! ?i + bs ! ?i)"
  from Suc.prems(3) in_range
  have cur: "m (a + ?i) = Some (as ! ?i)" "m (b + ?i) = Some (bs ! ?i)" "m (c + ?i) \<noteq> None"
    by auto
  have nat_suc: "nat (i + 1) = Suc ?i" using i by simp
  have inv: "\<forall>j. nat (i + 1) \<le> j \<and> j < n \<longrightarrow>
      ?m1 (a + j) = Some (as ! j) \<and> ?m1 (b + j) = Some (bs ! j) \<and> ?m1 (c + j) \<noteq> None"
  proof (intro allI impI)
    fix j assume j: "nat (i + 1) \<le> j \<and> j < n"
    then have "?i < j" using nat_suc by simp
    then have "a + j \<noteq> c + ?i" "b + j \<noteq> c + ?i" using ca cb j by auto
    moreover have "m (a + j) = Some (as ! j) \<and> m (b + j) = Some (bs ! j) \<and> m (c + j) \<noteq> None"
      using Suc.prems(3) j \<open>?i < j\<close> by auto
    ultimately show "?m1 (a + j) = Some (as ! j) \<and> ?m1 (b + j) = Some (bs ! j) \<and> ?m1 (c + j) \<noteq> None"
      by auto
  qed
  have k: "k = nat (N - (i + 1))" using Suc.prems(1) by simp
  have step: "seqSumArrays_loop a b c N i m = seqSumArrays_loop a b c N (i + 1) ?m1"
    using lt cur by (subst seqSumArrays_loop.simps) auto
  note step
  also have "seqSumArrays_loop a b c N (i + 1) ?m1 =
      Inr (\<lambda>p. if c + nat (i + 1) \<le> p \<and> p < c + n then Some (as ! (p - c) + bs ! (p - c)) else ?m1 p)"
  proof (rule Suc.IH[OF k _ inv])
    show "0 \<le> i + 1" using i by simp
  qed
  also have "(\<lambda>p. if c + nat (i + 1) \<le> p \<and> p < c + n then Some (as ! (p - c) + bs ! (p - c)) else ?m1 p) =
      (\<lambda>p. if c + ?i \<le> p \<and> p < c + n then Some (as ! (p - c) + bs ! (p - c)) else m p)"
    using in_range nat_suc by (auto intro!: ext)
  finally show ?case .
qed

lemma seqSumArrays_sums_aux:
  assumes "read_array m a (nat N) = Some as" "read_array m b (nat N) = Some bs"
    and "read_array m c (nat N) = Some cs"
    and "c \<le> a \<or> a + nat N \<le> c" and "c \<le> b \<or> b + nat N \<le> c"
  shows "seqSumArrays a b c N m =
       Inr (\<lambda>p. if c \<le> p \<and> p < c + nat N then Some (as ! (p - c) + bs ! (p - c)) else m p)"
proof -
  have "\<forall>j. nat 0 \<le> j \<and> j < nat N \<longrightarrow>
        m (a + j) = Some (as ! j) \<and> m (b + j) = Some (bs ! j) \<and> m (c + j) \<noteq> None"
    using assms(1-3) by (auto simp: read_array_iff)
  from seqSumArrays_loop_sums[OF refl assms(4,5) refl _ this]
  show ?thesis by (simp add: seqSumArrays_def)
qed

text \<open>
  Claim C10. For every \<open>N \<le> 0\<close> and all pointers \<open>a\<close>, \<open>b\<close>, \<open>c\<close>, \<open>seqSumArrays\<close>
  returns with the memory as it was: the loop condition \<open>0 < N\<close> fails at once, the
  body never runs and no cell is read or written. The pointers may be null, dangling or
  aliased, and the memory may have no cell allocated at all; a single run of the body
  would fault there.
\<close>

theorem seqSumArrays_nonpositive:
  "N \<le> 0 \<Longrightarrow> seqSumArrays a b c N m = Inr m"
  by (simp add: seqSumArrays_def seqSumArrays_loop.simps)

theorem seqSumArrays_nonpositive_witness:
  "(- 3 :: int) \<le> 0 \<and> seqSumArrays 1 5 9 (- 3) scenario_memory = Inr scenario_memory
    \<and> seqSumArrays 0 0 0 0 (\<lambda>p. None) = Inr (\<lambda>p. None)"
  using seqSumArrays_nonpositive [of "- 3" 1 5 9 scenario_memory]
    seqSumArrays_nonpositive [of 0 0 0 0 "\<lambda>p. None"]
  by simp

text \<open>
  Claim C4. Let \<open>a\<close> and \<open>b\<close> hold the arrays \<open>as\<close> and \<open>bs\<close> of length \<open>N\<close> and let
  \<open>c\<close> point to \<open>N\<close> allocated cells that do not start inside an input array (separate
  arrays, or the sum in place). Then \<open>seqSumArrays\<close> returns, and afterwards
  \<open>c[i] = a[i] + b[i]\<close> (the 32-bit sum) for every \<open>0 \<le> i < N\<close>, with the memory outside
  \<open>c[0 .. N-1]\<close> as it was. The model is the loop of the source, run by the caller.
\<close>

theorem seqSumArrays_sums:
  assumes "read_array m a (nat N) = Some as" and "read_array m b (nat N) = Some bs"
    and "read_array m c (nat N) = Some cs"
    and "c \<le> a \<or> a + nat N \<le> c" and "c \<le> b \<or> b + nat N \<le> c"
  shows "\<exists>m'. seqSumArrays a b c N m = Inr m'
           \<and> (\<forall>i<nat N. m' (c + i) = Some (as ! i + bs ! i))
           \<and> (\<forall>p. p < c \<or> c + nat N \<le> p \<longrightarrow> m' p = m p)"
  using seqSumArrays_sums_aux [OF assms] by simp

lemma scenario_reads:
  "read_array scenario_memory 1 (nat 4) = Some [3, 3, 3, 3]"
  "read_array scenario_memory 5 (nat 4) = Some [5, 5, 5, 5]"
  "read_array scenario_memory 9 (nat 4) = Some [0, 0, 0, 0]"
  by (simp_all add: scenario_memory_def vector_def empty_heap_def eval_nat_numeral)

theorem seqSumArrays_sums_witness:
  "read_array scenario_memory 1 (nat 4) = Some [3, 3, 3, 3]
   \<and> read_array scenario_memory 5 (nat 4) = Some [5, 5, 5, 5]
   \<and> read_array scenario_memory 9 (nat 4) = Some [0, 0, 0, 0]
   \<and> (\<exists>m'. seqSumArrays 1 5 9 4 scenario_memory = Inr m'
         \<and> m' 9 = Some 8 \<and> m' 10 = Some 8 \<and> m' 11 = Some 8 \<and> m' 12 = Some 8
         \<and> m' 1 = Some 3 \<and> m' 5 = Some 5)"
proof -
  have r: "read_array scenario_memory 1 (nat 4) = Some [3, 3, 3, 3]"
    "read_array scenario_memory 5 (nat 4) = Some [5, 5, 5, 5]"
    "read_array scenario_memory 9 (nat 4) = Some [0, 0, 0, 0]"
    by (simp_all add: scenario_memory_def vector_def empty_heap_def eval_nat_numeral)
  have s: "(9::nat) \<le> 1 \<or> 1 + nat 4 \<le> (9::nat)" "(9::nat) \<le> 5 \<or> 5 + nat 4 \<le> (9::nat)"
    by simp_all
  from seqSumArrays_sums [OF r s]
  obtain m' where m': "seqSumArrays 1 5 9 4 scenario_memory = Inr m'"
    "\<forall>i<nat 4. m' (9 + i) = Some ([3, 3, 3, 3] ! i + [5, 5, 5, 5] ! i)"
    "\<forall>p. p < 9 \<or> 9 + nat 4 \<le> p \<longrightarrow> m' p = scenario_memory p"
    by blast
  have "m' (9 + 0) = Some 8" "m' (9 + 1) = Some 8" "m' (9 + 2) = Some 8" "m' (9 + 3) = Some 8"
    using m'(2) by (simp_all add: eval_nat_numeral)
  moreover have "m' 1 = Some 3" "m' 5 = Some 5"
    using m'(3) by (simp_all add: scenario_memory_def vector_def empty_heap_def)
  ultimately show ?thesis using r m'(1) by simp
qed

subsection \<open>The equality check\<close>

lemma checkEquality_loop_pure:
  "checkEquality_loop c1 c2 N i m = Inr (r, m') \<Longrightarrow> m' = m"
proof (induction c1 c2 N i m rule: checkEquality_loop.induct)
  case (1 c1 c2 N i m)
  show ?case
  proof (cases "i < N")
    case False
    with "1.prems" show ?thesis by (simp add: checkEquality_loop.simps)
  next
    case True
    from "1.prems" True obtain x y where xy: "m (c1 + nat i) = Some x" "m (c2 + nat i) = Some y"
      by (subst (asm) checkEquality_loop.simps) (auto split: option.splits)
    show ?thesis
    proof (cases "x = y")
      case False
      with "1.prems" True xy show ?thesis
        by (subst (asm) checkEquality_loop.simps) simp
    next
      case eq: True
      with "1.prems" True xy have "checkEquality_loop c1 c2 N (i + 1) m = Inr (r, m')"
        by (subst (asm) checkEquality_loop.simps) simp
      with "1.IH" True xy eq show ?thesis by simp
    qed
  qed
qed

lemma checkEquality_loop_mismatch:
  "k = j - nat i \<Longrightarrow> 0 \<le> i \<Longrightarrow> nat i \<le> j \<Longrightarrow> j < nat N \<Longrightarrow>
   (\<forall>l. nat i \<le> l \<and> l < j \<longrightarrow> (\<exists>x. m (c1 + l) = Some x \<and> m (c2 + l) = Some x)) \<Longrightarrow>
   m (c1 + j) = Some x \<Longrightarrow> m (c2 + j) = Some y \<Longrightarrow> x \<noteq> y \<Longrightarrow>
   checkEquality_loop c1 c2 N i m = Inr (False, m)"
proof (induction k arbitrary: i)
  case 0
  then have j: "j = nat i" and lt: "i < N" by simp_all
  with 0 show ?case by (subst checkEquality_loop.simps) simp
next
  case (Suc k)
  then have lt: "i < N" and ij: "nat i < j" by simp_all
  with Suc.prems(5) Suc.prems(3) obtain z where z: "m (c1 + nat i) = Some z" "m (c2 + nat i) = Some z"
    by blast
  have step: "checkEquality_loop c1 c2 N i m = checkEquality_loop c1 c2 N (i + 1) m"
    using lt z by (subst checkEquality_loop.simps) simp
  have nat_suc: "nat (i + 1) = Suc (nat i)" using Suc.prems(2) by simp
  have "checkEquality_loop c1 c2 N (i + 1) m = Inr (False, m)"
  proof (rule Suc.IH)
    show "k = j - nat (i + 1)" using Suc.prems(1) nat_suc by simp
    show "0 \<le> i + 1" using Suc.prems(2) by simp
    show "nat (i + 1) \<le> j" using ij nat_suc by simp
    show "j < nat N" by fact
    show "\<forall>l. nat (i + 1) \<le> l \<and> l < j \<longrightarrow> (\<exists>x. m (c1 + l) = Some x \<and> m (c2 + l) = Some x)"
      using Suc.prems(5) nat_suc by simp
    show "m (c1 + j) = Some x" "m (c2 + j) = Some y" "x \<noteq> y" by fact+
  qed
  with step show ?case by simp
qed

lemma checkEquality_loop_all_equal:
  "k = nat (N - i) \<Longrightarrow> 0 \<le> i \<Longrightarrow>
   (\<forall>l. nat i \<le> l \<and> l < nat N \<longrightarrow> (\<exists>x. m (c1 + l) = Some x \<and> m (c2 + l) = Some x)) \<Longrightarrow>
   checkEquality_loop c1 c2 N i m = Inr (True, m)"
proof (induction k arbitrary: i)
  case 0
  then show ?case by (subst checkEquality_loop.simps) simp
next
  case (Suc k)
  then have lt: "i < N" by simp
  then have "nat i < nat N" using Suc.prems(2) by simp
  with Suc.prems(3) obtain z where z: "m (c1 + nat i) = Some z" "m (c2 + nat i) = Some z"
    by blast
  have step: "checkEquality_loop c1 c2 N i m = checkEquality_loop c1 c2 N (i + 1) m"
    using lt z by (subst checkEquality_loop.simps) simp
  have nat_suc: "nat (i + 1) = Suc (nat i)" using Suc.prems(2) by simp
  have "checkEquality_loop c1 c2 N (i + 1) m = Inr (True, m)"
  proof (rule Suc.IH)
    show "k = nat (N - (i + 1))" using Suc.prems(1) by simp
    show "0 \<le> i + 1" using Suc.prems(2) by simp
    show "\<forall>l. nat (i + 1) \<le> l \<and> l < nat N \<longrightarrow> (\<exists>x. m (c1 + l) = Some x \<and> m (c2 + l) = Some x)"
      using Suc.prems(3) nat_suc by simp
  qed
  with step show ?case by simp
qed

lemma first_difference:
  assumes "\<exists>i<n. xs ! i \<noteq> (ys ! i :: 'a)"
  shows "\<exists>j<n. xs ! j \<noteq> ys ! j \<and> (\<forall>l<j. xs ! l = ys ! l)"
proof -
  let ?P = "\<lambda>i. i < n \<and> xs ! i \<noteq> ys ! i"
  from assms have ex: "\<exists>i. ?P i" by blast
  then have "?P (LEAST i. ?P i)" by (rule LeastI_ex)
  moreover have "\<forall>l<(LEAST i. ?P i). xs ! l = ys ! l"
  proof (intro allI impI)
    fix l assume l: "l < (LEAST i. ?P i)"
    then have "\<not> ?P l" by (rule not_less_Least)
    moreover have "l < n" using l \<open>?P (LEAST i. ?P i)\<close> by simp
    ultimately show "xs ! l = ys ! l" by simp
  qed
  ultimately show ?thesis by blast
qed

lemma read_array_length: "read_array m p n = Some xs \<Longrightarrow> length xs = n"
  by (simp only: read_array_iff)

lemma read_array_nth: "read_array m p n = Some xs \<Longrightarrow> i < n \<Longrightarrow> m (p + i) = Some (xs ! i)"
  by (simp only: read_array_iff)

lemma checkEquality_arrays:
  assumes "read_array m c1 (nat N) = Some xs" "read_array m c2 (nat N) = Some ys"
  shows "checkEquality c1 c2 N m = Inr ((\<forall>i<nat N. xs ! i = ys ! i), m)"
proof (cases "\<forall>i<nat N. xs ! i = ys ! i")
  case True
  then have "\<forall>l. nat 0 \<le> l \<and> l < nat N \<longrightarrow> (\<exists>x. m (c1 + l) = Some x \<and> m (c2 + l) = Some x)"
    using assms by (simp add: read_array_iff)
  from checkEquality_loop_all_equal[OF refl _ this] True
  show ?thesis by (simp add: checkEquality_def)
next
  case False
  then obtain j where j: "j < nat N" "xs ! j \<noteq> ys ! j" "\<forall>l<j. xs ! l = ys ! l"
    using first_difference[of "nat N" xs ys] by blast
  have "checkEquality_loop c1 c2 N 0 m = Inr (False, m)"
  proof (rule checkEquality_loop_mismatch[OF refl])
    show "(0::int) \<le> 0" "nat 0 \<le> j" by simp_all
    show "j < nat N" by fact
    show "\<forall>l. nat 0 \<le> l \<and> l < j \<longrightarrow> (\<exists>x. m (c1 + l) = Some x \<and> m (c2 + l) = Some x)"
      using assms j by (simp add: read_array_iff)
    show "m (c1 + j) = Some (xs ! j)" "m (c2 + j) = Some (ys ! j)"
      using assms j by (simp_all add: read_array_iff)
    show "xs ! j \<noteq> ys ! j" by fact
  qed
  with False show ?thesis by (simp add: checkEquality_def)
qed

lemma checkEquality_first_mismatch:
  assumes "j < nat N" "read_array m c1 (Suc j) = Some us" "read_array m c2 (Suc j) = Some vs"
    and "take j us = take j vs" "us ! j \<noteq> vs ! j"
  shows "checkEquality c1 c2 N m = Inr (False, m)"
proof -
  have "checkEquality_loop c1 c2 N 0 m = Inr (False, m)"
  proof (rule checkEquality_loop_mismatch[OF refl])
    show "(0::int) \<le> 0" "nat 0 \<le> j" by simp_all
    show "j < nat N" by fact
    show "\<forall>l. nat 0 \<le> l \<and> l < j \<longrightarrow> (\<exists>x. m (c1 + l) = Some x \<and> m (c2 + l) = Some x)"
    proof (intro allI impI)
      fix l assume l: "nat 0 \<le> l \<and> l < j"
      then have "us ! l = take j us ! l" "vs ! l = take j vs ! l" by simp_all
      then have "us ! l = vs ! l" using assms(4) by simp
      then show "\<exists>x. m (c1 + l) = Some x \<and> m (c2 + l) = Some x"
        using read_array_nth[OF assms(2), of l] read_array_nth[OF assms(3), of l] l by simp
    qed
    show "m (c1 + j) = Some (us ! j)" "m (c2 + j) = Some (vs ! j)"
      using read_array_nth[OF assms(2), of j] read_array_nth[OF assms(3), of j] by simp_all
    show "us ! j \<noteq> vs ! j" by fact
  qed
  then show ?thesis by (simp add: checkEquality_def)
qed

text \<open>
  Claim C5. Three facts about \<open>checkEquality\<close>. When \<open>c1\<close> and \<open>c2\<close> hold arrays of
  length \<open>N\<close>, it returns true if and only if \<open>c1[i] = c2[i]\<close> for every \<open>0 \<le> i < N\<close>.
  It stops at the first mismatch: if the arrays agree below \<open>j\<close> and differ at \<open>j < N\<close>,
  it returns false having read the cells up to \<open>j\<close> only, so the cells after \<open>j\<close> need
  not even be allocated. And it has no side effect: whenever it returns, the memory is
  as it was.
\<close>

theorem checkEquality_correct:
  "(read_array m c1 (nat N) = Some xs \<and> read_array m c2 (nat N) = Some ys \<longrightarrow>
      checkEquality c1 c2 N m = Inr ((\<forall>i<nat N. xs ! i = ys ! i), m))
   \<and> (j < nat N \<and> read_array m c1 (Suc j) = Some us \<and> read_array m c2 (Suc j) = Some vs
        \<and> take j us = take j vs \<and> us ! j \<noteq> vs ! j \<longrightarrow>
      checkEquality c1 c2 N m = Inr (False, m))
   \<and> (checkEquality c1 c2 N m = Inr (r, m') \<longrightarrow> m' = m)"
  using checkEquality_arrays checkEquality_first_mismatch
    checkEquality_loop_pure [of c1 c2 N 0 m r m']
  by (auto simp: checkEquality_def)

theorem checkEquality_correct_witness:
  "read_array scenario_memory 1 (nat 4) = Some [3, 3, 3, 3]
   \<and> read_array scenario_memory 5 (nat 4) = Some [5, 5, 5, 5]
   \<and> checkEquality 1 1 4 scenario_memory = Inr (True, scenario_memory)
   \<and> checkEquality 1 5 4 scenario_memory = Inr (False, scenario_memory)
   \<and> (1::nat) < nat 3
   \<and> read_array mismatch_memory 1 (Suc 1) = Some [8, 8]
   \<and> read_array mismatch_memory 4 (Suc 1) = Some [8, 7]
   \<and> read_array mismatch_memory 4 (nat 3) = None
   \<and> checkEquality 1 4 3 mismatch_memory = Inr (False, mismatch_memory)"
proof -
  have r: "read_array scenario_memory 1 (nat 4) = Some [3, 3, 3, 3]"
    "read_array scenario_memory 5 (nat 4) = Some [5, 5, 5, 5]"
    by (simp_all add: scenario_memory_def vector_def empty_heap_def eval_nat_numeral)
  have q: "read_array mismatch_memory 1 (Suc 1) = Some [8, 8]"
    "read_array mismatch_memory 4 (Suc 1) = Some [8, 7]"
    "read_array mismatch_memory 4 (nat 3) = None"
    by (simp_all add: mismatch_memory_def eval_nat_numeral)
  have "checkEquality 1 1 4 scenario_memory = Inr (True, scenario_memory)"
    using checkEquality_correct [of scenario_memory 1 4 "[3, 3, 3, 3]" 1 "[3, 3, 3, 3]"] r
    by simp
  moreover have "\<not> (\<forall>i<nat 4. [3, 3, 3, 3 :: int32] ! i = [5, 5, 5, 5] ! i)"
    by (auto intro: exI [of _ 0])
  then have "checkEquality 1 5 4 scenario_memory = Inr (False, scenario_memory)"
    using checkEquality_correct [of scenario_memory 1 4 "[3, 3, 3, 3]" 5 "[5, 5, 5, 5]"] r
    by simp
  moreover have "checkEquality 1 4 3 mismatch_memory = Inr (False, mismatch_memory)"
    using checkEquality_correct [of mismatch_memory 1 3 _ 4 _ 1 "[8, 8]" "[8, 7]"] q
    by simp
  ultimately show ?thesis using r q by simp
qed

subsection \<open>Buffers and the kernel of add.cl\<close>

lemma write_array_allocated:
  "(\<forall>i<length xs. m (p + i) \<noteq> None) \<Longrightarrow>
   write_array m p xs =
     Some (\<lambda>q. if p \<le> q \<and> q < p + length xs then Some (xs ! (q - p)) else m q)"
proof (induction xs arbitrary: m p)
  case Nil
  have "(\<lambda>q. if p \<le> q \<and> q < p + length ([] :: buffer) then Some ([] ! (q - p)) else m q) = m"
    by (rule ext) auto
  then show ?case by simp
next
  case (Cons x xs)
  let ?m1 = "m(p \<mapsto> x)"
  from Cons.prems have "m (p + 0) \<noteq> None" by blast
  then obtain y where here: "m p = Some y" by auto
  have rest: "\<forall>i<length xs. ?m1 (Suc p + i) \<noteq> None"
  proof (intro allI impI)
    fix i assume "i < length xs"
    then have "m (p + Suc i) \<noteq> None" using Cons.prems by auto
    then show "?m1 (Suc p + i) \<noteq> None" by simp
  qed
  have "write_array m p (x # xs) = write_array ?m1 (Suc p) xs"
    using here by (simp del: fun_upd_apply)
  also have "\<dots> = Some (\<lambda>q. if Suc p \<le> q \<and> q < Suc p + length xs
                            then Some (xs ! (q - Suc p)) else ?m1 q)"
    by (rule Cons.IH [OF rest])
  also have "(\<lambda>q. if Suc p \<le> q \<and> q < Suc p + length xs then Some (xs ! (q - Suc p)) else ?m1 q) =
        (\<lambda>q. if p \<le> q \<and> q < p + length (x # xs) then Some ((x # xs) ! (q - p)) else m q)"
  proof (rule ext)
    fix q
    show "(if Suc p \<le> q \<and> q < Suc p + length xs then Some (xs ! (q - Suc p)) else ?m1 q) =
        (if p \<le> q \<and> q < p + length (x # xs) then Some ((x # xs) ! (q - p)) else m q)"
    proof (cases "q = p")
      case True
      then show ?thesis by simp
    next
      case False
      show ?thesis
      proof (cases "Suc p \<le> q \<and> q < Suc p + length xs")
        case True
        then have "q - p = Suc (q - Suc p)" by arith
        then show ?thesis using True by simp
      next
        case out: False
        then have "\<not> (p \<le> q \<and> q < p + length (x # xs))" using False by auto
        then show ?thesis using out False by auto
      qed
    qed
  qed
  finally show ?case .
qed

text \<open>The kernel name that parSumArrays asks for is not in add.cl.\<close>

lemma Kernel_sumArrays: "Kernel (Some add_cl) ''sumArrays'' = None"
  by (simp add: Kernel_def add_cl_def)

lemma Kernel_add: "Kernel (Some add_cl) ''add'' = Some add"
  by (simp add: Kernel_def add_cl_def)

lemma parSumArrays_nonpositive:
  "N \<le> 0 \<Longrightarrow> parSumArrays g run a b c N m = Inr m"
  by (simp add: parSumArrays_def Buffer_copy_def Buffer_def enqueueNDRangeKernel_def
      enqueueReadBuffer_def Let_def split: option.splits)

lemma parSumArrays_add_cl:
  assumes g: "program g = Some add_cl" "ctxt g = Some d" "device g = Some d'"
    and N: "0 < N"
    and a: "read_array m a (nat N) = Some as" and b: "read_array m b (nat N) = Some bs"
    and c: "read_array m c (nat N) = Some cs"
  shows "parSumArrays g run a b c N m =
     Inr (\<lambda>q. if c \<le> q \<and> q < c + nat N then Some (uninitialised run (q - c)) else m q)"
proof -
  have alloc: "\<forall>i<length (map (uninitialised run) [0 ..< nat N]). m (c + i) \<noteq> None"
    using read_array_nth [OF c] by simp
  have "(\<lambda>q. if c \<le> q \<and> q < c + length (map (uninitialised run) [0 ..< nat N])
           then Some (map (uninitialised run) [0 ..< nat N] ! (q - c)) else m q) =
        (\<lambda>q. if c \<le> q \<and> q < c + nat N then Some (uninitialised run (q - c)) else m q)"
  proof (rule ext)
    fix q
    show "(if c \<le> q \<and> q < c + length (map (uninitialised run) [0 ..< nat N])
           then Some (map (uninitialised run) [0 ..< nat N] ! (q - c)) else m q) =
        (if c \<le> q \<and> q < c + nat N then Some (uninitialised run (q - c)) else m q)"
    proof (cases "c \<le> q \<and> q < c + nat N")
      case True
      then have "q - c < nat N" by arith
      then show ?thesis using True by simp
    next
      case False
      then show ?thesis by auto
    qed
  qed
  with write_array_allocated [OF alloc]
  have w: "write_array m c (map (uninitialised run) [0 ..< nat N]) =
      Some (\<lambda>q. if c \<le> q \<and> q < c + nat N then Some (uninitialised run (q - c)) else m q)"
    by simp
  show ?thesis
    using g N a b w
    by (simp add: parSumArrays_def Buffer_copy_def Buffer_def Kernel_sumArrays CommandQueue_def
        enqueueNDRangeKernel_def enqueueReadBuffer_def)
qed

lemma run_items_add:
  "distinct sched \<Longrightarrow> set sched \<subseteq> {..<length c} \<Longrightarrow> length a = length c \<Longrightarrow>
   length b = length c \<Longrightarrow>
   run_items add sched a b c =
     Some (map (\<lambda>i. if i \<in> set sched then a ! i + b ! i else c ! i) [0 ..< length c])"
proof (induction sched arbitrary: c)
  case Nil
  then show ?case by (simp add: map_nth)
next
  case (Cons idx rest)
  let ?c1 = "c[idx := a ! idx + b ! idx]"
  have idx: "idx < length c" "idx \<notin> set rest" using Cons.prems(1,2) by simp_all
  have step: "add idx a b c = Some ?c1" using idx Cons.prems(3,4) by (simp add: add_def)
  have "run_items add rest a b ?c1 =
      Some (map (\<lambda>i. if i \<in> set rest then a ! i + b ! i else ?c1 ! i) [0 ..< length ?c1])"
  proof (rule Cons.IH)
    show "distinct rest" using Cons.prems(1) by simp
    show "set rest \<subseteq> {..<length ?c1}" using Cons.prems(2) by simp
    show "length a = length ?c1" using Cons.prems(3) by simp
    show "length b = length ?c1" using Cons.prems(4) by simp
  qed
  also have "map (\<lambda>i. if i \<in> set rest then a ! i + b ! i else ?c1 ! i) [0 ..< length ?c1] =
      map (\<lambda>i. if i \<in> set (idx # rest) then a ! i + b ! i else c ! i) [0 ..< length c]"
  proof -
    have "(if i \<in> set rest then a ! i + b ! i else ?c1 ! i) =
          (if i \<in> set (idx # rest) then a ! i + b ! i else c ! i)" for i
      using idx(1) by (cases "i = idx") simp_all
    then show ?thesis by simp
  qed
  finally show ?case using step by simp
qed

lemma run_items_add_all:
  assumes d: "distinct sched" and s: "set sched = {..<n}"
    and len: "length a = n" "length b = n" "length c = n"
  shows "run_items add sched a b c = Some (map2 (+) a b)"
proof -
  have "run_items add sched a b c =
      Some (map (\<lambda>i. if i \<in> set sched then a ! i + b ! i else c ! i) [0 ..< length c])"
  proof (rule run_items_add)
    show "distinct sched" by fact
    show "set sched \<subseteq> {..<length c}" using s len by simp
    show "length a = length c" "length b = length c" using len by simp_all
  qed
  also have "map (\<lambda>i. if i \<in> set sched then a ! i + b ! i else c ! i) [0 ..< length c] =
      map2 (+) a b"
  proof (rule nth_equalityI)
    show "length (map (\<lambda>i. if i \<in> set sched then a ! i + b ! i else c ! i) [0 ..< length c]) =
        length (map2 (+) a b)"
      using len by simp
  next
    fix i
    assume "i < length (map (\<lambda>i. if i \<in> set sched then a ! i + b ! i else c ! i) [0 ..< length c])"
    then have i: "i < n" using len by simp
    then show "map (\<lambda>i. if i \<in> set sched then a ! i + b ! i else c ! i) [0 ..< length c] ! i =
        map2 (+) a b ! i"
      using s len by simp
  qed
  finally show ?thesis .
qed

subsection \<open>Repeated runs\<close>

lemma read_array_cong:
  "(\<forall>i<n. m' (p + i) = m (p + i)) \<Longrightarrow> read_array m' p n = read_array m p n"
proof (induction n arbitrary: p)
  case 0
  then show ?case by simp
next
  case (Suc n)
  have "m' (p + 0) = m (p + 0)" using Suc.prems by blast
  then have here: "m' p = m p" by simp
  have "\<forall>i<n. m' (Suc p + i) = m (Suc p + i)"
  proof (intro allI impI)
    fix i assume "i < n"
    then have "m' (p + Suc i) = m (p + Suc i)" using Suc.prems by blast
    then show "m' (Suc p + i) = m (Suc p + i)" by simp
  qed
  then have "read_array m' (Suc p) n = read_array m (Suc p) n" by (rule Suc.IH)
  with here show ?case by (simp split: option.splits)
qed

lemma read_array_overwritten:
  assumes "length xs = n"
  shows "read_array (\<lambda>q. if p \<le> q \<and> q < p + n then Some (xs ! (q - p)) else m q) p n = Some xs"
  using assms by (simp only: read_array_iff) simp

lemma read_array_outside:
  assumes "p + n \<le> c \<or> c + k \<le> p"
  shows "read_array (\<lambda>q. if c \<le> q \<and> q < c + k then f q else m q) p n = read_array m p n"
proof (rule read_array_cong, intro allI impI)
  fix i assume "i < n"
  then have "\<not> (c \<le> p + i \<and> p + i < c + k)" using assms by auto
  then show "(if c \<le> p + i \<and> p + i < c + k then f (p + i) else m (p + i)) = m (p + i)"
    by auto
qed

text \<open>Repeating the sequential sum gives what one call gives.\<close>

lemma seqSumArrays_repeated:
  assumes a: "read_array m a (nat N) = Some as" and b: "read_array m b (nat N) = Some bs"
    and c: "read_array m c (nat N) = Some cs"
    and ca: "a + nat N \<le> c \<or> c + nat N \<le> a" and cb: "b + nat N \<le> c \<or> c + nat N \<le> b"
  shows "for_upto (Suc k) (\<lambda>i. seqSumArrays a b c N) m =
     Inr (\<lambda>p. if c \<le> p \<and> p < c + nat N then Some (as ! (p - c) + bs ! (p - c)) else m p)"
proof (induction k)
  case 0
  have "seqSumArrays a b c N m =
      Inr (\<lambda>p. if c \<le> p \<and> p < c + nat N then Some (as ! (p - c) + bs ! (p - c)) else m p)"
    using a b c ca cb by (intro seqSumArrays_sums_aux) auto
  then show ?case by simp
next
  case (Suc k)
  let ?m1 = "\<lambda>p. if c \<le> p \<and> p < c + nat N then Some (as ! (p - c) + bs ! (p - c)) else m p"
  have a1: "read_array ?m1 a (nat N) = Some as"
    using read_array_outside [of a "nat N" c "nat N"] ca a by simp
  have b1: "read_array ?m1 b (nat N) = Some bs"
    using read_array_outside [of b "nat N" c "nat N"] cb b by simp
  have len: "length (map (\<lambda>i. as ! i + bs ! i) [0 ..< nat N]) = nat N" by simp
  have "?m1 = (\<lambda>q. if c \<le> q \<and> q < c + nat N
                 then Some (map (\<lambda>i. as ! i + bs ! i) [0 ..< nat N] ! (q - c)) else m q)"
  proof (rule ext)
    fix q
    show "?m1 q = (if c \<le> q \<and> q < c + nat N
        then Some (map (\<lambda>i. as ! i + bs ! i) [0 ..< nat N] ! (q - c)) else m q)"
    proof (cases "c \<le> q \<and> q < c + nat N")
      case True
      then have "q - c < nat N" by arith
      then show ?thesis using True by simp
    next
      case False
      then show ?thesis by auto
    qed
  qed
  then have c1: "read_array ?m1 c (nat N) = Some (map (\<lambda>i. as ! i + bs ! i) [0 ..< nat N])"
    using read_array_overwritten [OF len, of c m] by simp
  have again: "seqSumArrays a b c N ?m1 =
      Inr (\<lambda>p. if c \<le> p \<and> p < c + nat N then Some (as ! (p - c) + bs ! (p - c)) else ?m1 p)"
    using a1 b1 c1 ca cb by (intro seqSumArrays_sums_aux) auto
  have "(\<lambda>p. if c \<le> p \<and> p < c + nat N then Some (as ! (p - c) + bs ! (p - c)) else ?m1 p) = ?m1"
    by (rule ext) simp
  with again have "seqSumArrays a b c N ?m1 = Inr ?m1" by simp
  with Suc show ?case by simp
qed

lemma read_array_overwritten_fun:
  "read_array (\<lambda>q. if p \<le> q \<and> q < p + n then Some (f (q - p)) else m q) p n = Some (map f [0 ..< n])"
proof -
  have "(\<lambda>q. if p \<le> q \<and> q < p + n then Some (f (q - p)) else m q) =
        (\<lambda>q. if p \<le> q \<and> q < p + n then Some (map f [0 ..< n] ! (q - p)) else m q)"
  proof (rule ext)
    fix q
    show "(if p \<le> q \<and> q < p + n then Some (f (q - p)) else m q) =
        (if p \<le> q \<and> q < p + n then Some (map f [0 ..< n] ! (q - p)) else m q)"
    proof (cases "p \<le> q \<and> q < p + n")
      case True
      then have "q - p < n" by arith
      then show ?thesis using True by simp
    next
      case False
      then show ?thesis by auto
    qed
  qed
  then show ?thesis using read_array_overwritten [of "map f [0 ..< n]" n p m] by simp
qed

text \<open>
  Repeating the parallel sum with the program of add.cl: the output array holds what the
  last output buffer held when it was created.
\<close>

lemma parSumArrays_repeated:
  assumes g: "program g = Some add_cl" "ctxt g = Some d" "device g = Some d'"
    and N: "0 < N"
    and a: "read_array m a (nat N) = Some as" and b: "read_array m b (nat N) = Some bs"
    and c: "read_array m c (nat N) = Some cs"
    and ca: "a + nat N \<le> c \<or> c + nat N \<le> a" and cb: "b + nat N \<le> c \<or> c + nat N \<le> b"
  shows "for_upto (Suc k) (\<lambda>i. parSumArrays g (rs i) a b c N) m =
     Inr (\<lambda>q. if c \<le> q \<and> q < c + nat N then Some (uninitialised (rs k) (q - c)) else m q)"
proof (induction k)
  case 0
  have "parSumArrays g (rs 0) a b c N m =
      Inr (\<lambda>q. if c \<le> q \<and> q < c + nat N then Some (uninitialised (rs 0) (q - c)) else m q)"
    using g N a b c by (rule parSumArrays_add_cl)
  then show ?case by simp
next
  case (Suc k)
  let ?w = "\<lambda>q. if c \<le> q \<and> q < c + nat N then Some (uninitialised (rs k) (q - c)) else m q"
  have a1: "read_array ?w a (nat N) = Some as"
    using read_array_outside [of a "nat N" c "nat N"] ca a by simp
  have b1: "read_array ?w b (nat N) = Some bs"
    using read_array_outside [of b "nat N" c "nat N"] cb b by simp
  have c1: "read_array ?w c (nat N) = Some (map (uninitialised (rs k)) [0 ..< nat N])"
    by (rule read_array_overwritten_fun)
  have "parSumArrays g (rs (Suc k)) a b c N ?w =
      Inr (\<lambda>q. if c \<le> q \<and> q < c + nat N then Some (uninitialised (rs (Suc k)) (q - c)) else ?w q)"
    using g N a1 b1 c1 by (rule parSumArrays_add_cl)
  also have "(\<lambda>q. if c \<le> q \<and> q < c + nat N then Some (uninitialised (rs (Suc k)) (q - c)) else ?w q) =
      (\<lambda>q. if c \<le> q \<and> q < c + nat N then Some (uninitialised (rs (Suc k)) (q - c)) else m q)"
    by (rule ext) simp
  finally show ?case using Suc by simp
qed

text \<open>A loop of recorded calls is the loop of the calls, with one record for each.\<close>

lemma for_upto_logged:
  "for_upto n (\<lambda>i. logged c (body i)) (m, tr) =
     (case for_upto n body m of Inl f \<Rightarrow> Inl f | Inr m' \<Rightarrow> Inr (m', tr @ replicate n c))"
proof (induction n)
  case 0
  then show ?case by simp
next
  case (Suc n)
  show ?case
  proof (cases "for_upto n body m")
    case (Inl f)
    with Suc show ?thesis by simp
  next
    case (Inr m1)
    with Suc show ?thesis
      by (cases "body n m1") (simp_all add: logged_def replicate_append_same)
  qed
qed

lemma ARRAYS_DIM_pos: "0 < ARRAYS_DIM"
  by (simp add: ARRAYS_DIM_def)

lemma EXECUTIONS_Suc: "EXECUTIONS = Suc 9"
  by (simp add: EXECUTIONS_def)

subsection \<open>The vectors of the benchmark\<close>

lemma read_array_vector:
  "read_array (cells (snd (vector n x h))) (brk h) n = Some (replicate n x)"
proof -
  have "read_array (\<lambda>q. if brk h \<le> q \<and> q < brk h + n then Some ((\<lambda>i. x) (q - brk h)) else cells h q)
      (brk h) n = Some (map (\<lambda>i. x) [0 ..< n])"
    by (rule read_array_overwritten_fun)
  then show ?thesis by (simp add: vector_def map_replicate_const)
qed

lemma read_array_vector_below:
  "p + k \<le> brk h \<Longrightarrow> read_array (cells (snd (vector n x h))) p k = read_array (cells h) p k"
  using read_array_outside [of p k "brk h" n "\<lambda>q. Some x" "cells h"]
  by (simp add: vector_def)

text \<open>The four vectors of the benchmark, as \<open>main\<close> allocates them.\<close>

lemma main_vectors:
  "\<exists>a b cs cp h1 h2 h3 h4.
     vector n 3 empty_heap = (a, h1) \<and> vector n 5 h1 = (b, h2)
     \<and> vector n 0 h2 = (cs, h3) \<and> vector n 0 h3 = (cp, h4)
     \<and> a = 1 \<and> b = 1 + n \<and> cs = 1 + 2 * n \<and> cp = 1 + 3 * n
     \<and> read_array (cells h4) a n = Some (replicate n 3)
     \<and> read_array (cells h4) b n = Some (replicate n 5)
     \<and> read_array (cells h4) cs n = Some (replicate n 0)
     \<and> read_array (cells h4) cp n = Some (replicate n 0)"
proof -
  define h1 where "h1 = snd (vector n 3 empty_heap)"
  define h2 where "h2 = snd (vector n 5 h1)"
  define h3 where "h3 = snd (vector n 0 h2)"
  define h4 where "h4 = snd (vector n 0 h3)"
  have b1: "brk h1 = 1 + n" by (simp add: h1_def vector_def empty_heap_def)
  have b2: "brk h2 = 1 + 2 * n" by (simp add: h2_def vector_def b1)
  have b3: "brk h3 = 1 + 3 * n" by (simp add: h3_def vector_def b2)
  have v1: "vector n 3 empty_heap = (1, h1)"
    by (simp add: h1_def vector_def empty_heap_def)
  have v2: "vector n 5 h1 = (1 + n, h2)"
    using b1 by (simp add: h2_def vector_def)
  have v3: "vector n 0 h2 = (1 + 2 * n, h3)"
    using b2 by (simp add: h3_def vector_def)
  have v4: "vector n 0 h3 = (1 + 3 * n, h4)"
    using b3 by (simp add: h4_def vector_def)
  have r1: "read_array (cells h1) 1 n = Some (replicate n 3)"
    using read_array_vector [of n 3 empty_heap] by (simp add: h1_def empty_heap_def)
  have r2: "read_array (cells h2) (1 + n) n = Some (replicate n 5)"
    using read_array_vector [of n 5 h1] b1 by (simp add: h2_def)
  have r3: "read_array (cells h3) (1 + 2 * n) n = Some (replicate n 0)"
    using read_array_vector [of n 0 h2] b2 by (simp add: h3_def)
  have q4: "read_array (cells h4) (1 + 3 * n) n = Some (replicate n 0)"
    using read_array_vector [of n 0 h3] b3 by (simp add: h4_def)
  have "read_array (cells h4) (1 + 2 * n) n = read_array (cells h3) (1 + 2 * n) n"
    unfolding h4_def by (rule read_array_vector_below) (simp add: b3)
  with r3 have q3: "read_array (cells h4) (1 + 2 * n) n = Some (replicate n 0)" by simp
  have "read_array (cells h4) (1 + n) n = read_array (cells h3) (1 + n) n"
    unfolding h4_def by (rule read_array_vector_below) (simp add: b3)
  also have "\<dots> = read_array (cells h2) (1 + n) n"
    unfolding h3_def by (rule read_array_vector_below) (simp add: b2)
  finally have q2: "read_array (cells h4) (1 + n) n = Some (replicate n 5)" using r2 by simp
  have "read_array (cells h4) 1 n = read_array (cells h3) 1 n"
    unfolding h4_def by (rule read_array_vector_below) (simp add: b3)
  also have "\<dots> = read_array (cells h2) 1 n"
    unfolding h3_def by (rule read_array_vector_below) (simp add: b2)
  also have "\<dots> = read_array (cells h1) 1 n"
    unfolding h2_def by (rule read_array_vector_below) (simp add: b1)
  finally have q1: "read_array (cells h4) 1 n = Some (replicate n 3)" using r1 by simp
  from v1 v2 v3 v4 q1 q2 q3 q4 show ?thesis by blast
qed

subsection \<open>The benchmark\<close>

text \<open>The benchmark up to the call of \<open>initializeDevice\<close>, when that call exits.\<close>

lemma main_exit:
  assumes init: "initializeDevice e \<lparr>program = None, ctxt = None, device = None\<rparr>
      \<lparr>cout = [], cerr = []\<rparr> = (Inl st, con)"
  shows "\<exists>m. main e = Inr \<lparr>status = st, streams = con, mem = m,
             cs_data = 1 + 2 * nat ARRAYS_DIM, cp_data = 1 + 3 * nat ARRAYS_DIM,
             calls = replicate EXECUTIONS Called_seqSumArrays @ [Called_initializeDevice]\<rparr>
           \<and> read_array m (1 + 2 * nat ARRAYS_DIM) (nat ARRAYS_DIM) = Some (replicate (nat ARRAYS_DIM) 8)
           \<and> read_array m (1 + 3 * nat ARRAYS_DIM) (nat ARRAYS_DIM) = Some (replicate (nat ARRAYS_DIM) 0)"
proof -
  let ?n = "nat ARRAYS_DIM"
  from main_vectors [of ?n]
  obtain a b cs cp h1 h2 h3 h4 where
    v: "vector ?n 3 empty_heap = (a, h1)" "vector ?n 5 h1 = (b, h2)"
      "vector ?n 0 h2 = (cs, h3)" "vector ?n 0 h3 = (cp, h4)"
    and addr: "a = 1" "b = 1 + ?n" "cs = 1 + 2 * ?n" "cp = 1 + 3 * ?n"
    and r: "read_array (cells h4) a ?n = Some (replicate ?n 3)"
      "read_array (cells h4) b ?n = Some (replicate ?n 5)"
      "read_array (cells h4) cs ?n = Some (replicate ?n 0)"
      "read_array (cells h4) cp ?n = Some (replicate ?n 0)"
    by blast
  define m1 where "m1 = (\<lambda>p. if cs \<le> p \<and> p < cs + ?n
      then Some (replicate ?n 3 ! (p - cs) + replicate ?n 5 ! (p - cs)) else cells h4 p)"
  have seq: "for_upto EXECUTIONS (\<lambda>i. seqSumArrays a b cs ARRAYS_DIM) (cells h4) = Inr m1"
    unfolding m1_def EXECUTIONS_Suc
  proof (rule seqSumArrays_repeated)
    show "read_array (cells h4) a ?n = Some (replicate ?n 3)" by fact
    show "read_array (cells h4) b ?n = Some (replicate ?n 5)" by fact
    show "read_array (cells h4) cs ?n = Some (replicate ?n 0)" by fact
    show "a + ?n \<le> cs \<or> cs + ?n \<le> a" using addr by simp
    show "b + ?n \<le> cs \<or> cs + ?n \<le> b" using addr by simp
  qed
  have "read_array m1 cs ?n =
      Some (map (\<lambda>i. replicate ?n 3 ! i + replicate ?n 5 ! i) [0 ..< ?n])"
    unfolding m1_def by (rule read_array_overwritten_fun)
  also have "map (\<lambda>i. replicate ?n 3 ! i + replicate ?n 5 ! i) [0 ..< ?n] = replicate ?n (8 :: int32)"
    by (rule nth_equalityI) simp_all
  finally have cs1: "read_array m1 cs ?n = Some (replicate ?n 8)" .
  have "read_array m1 cp ?n = read_array (cells h4) cp ?n"
    unfolding m1_def by (rule read_array_outside) (simp add: addr)
  then have cp1: "read_array m1 cp ?n = Some (replicate ?n 0)" using r by simp
  have "main e = Inr \<lparr>status = st, streams = con, mem = m1, cs_data = cs, cp_data = cp,
      calls = replicate EXECUTIONS Called_seqSumArrays @ [Called_initializeDevice]\<rparr>"
    by (simp add: main_def Let_def v for_upto_logged seq init)
  then show ?thesis using cs1 cp1 addr by auto
qed

lemma initializeDevice_built:
  assumes "get_platforms e = (d # ds) # ps" and "build_failure e = None"
  shows "initializeDevice e g con =
     (Inr (g\<lparr>device := Some d, ctxt := Some d, program := Some add_cl\<rparr>), con)"
  using assms by (simp add: initializeDevice_def getDefaultDevice_def)

text \<open>The benchmark when a device is found and the build succeeds.\<close>

lemma main_report:
  assumes plat: "get_platforms e = (d # ds) # ps" and build: "build_failure e = None"
  shows "\<exists>m. main e =
     Inr \<lparr>status = 0,
          streams = \<lparr>cout =
            [Str ''status: '',
             Str (if \<forall>i<nat ARRAYS_DIM. uninitialised (runs e 9) i = 8
                  then ''SUCCESS!'' else ''FAILED!''), Endl,
             Str (''results: '' @ [NL, TAB] @ ''a[0] = ''), Num 3,
             Str ([NL, TAB] @ ''b[0] = ''), Num 5,
             Str ([NL, TAB] @ ''c[0] = a[0] + b[0] = ''),
             Num (sint (uninitialised (runs e 9) 0)), Endl,
             Str (''mean execution time: '' @ [NL, TAB] @ ''sequential: ''),
             Dbl (Some ((10000 * real_of_int (clock e 1 - clock e 0)) / real_of_int CLOCKS_PER_SEC
                         / real EXECUTIONS)),
             Str ('' ms;'' @ [NL, TAB] @ ''parallel: ''),
             Dbl (Some ((10000 * real_of_int (clock e 3 - clock e 2)) / real_of_int CLOCKS_PER_SEC
                         / real EXECUTIONS)),
             Str '' ms.'', Endl,
             Str ''performance gain: '',
             Dbl (fdiv (100 * ((10000 * real_of_int (clock e 1 - clock e 0)) / real_of_int CLOCKS_PER_SEC
                                  / real EXECUTIONS
                               - (10000 * real_of_int (clock e 3 - clock e 2)) / real_of_int CLOCKS_PER_SEC
                                  / real EXECUTIONS))
                       ((10000 * real_of_int (clock e 3 - clock e 2)) / real_of_int CLOCKS_PER_SEC
                          / real EXECUTIONS)),
             Str (''%'' @ [NL])],
            cerr = []\<rparr>,
          mem = m, cs_data = 1 + 2 * nat ARRAYS_DIM, cp_data = 1 + 3 * nat ARRAYS_DIM,
          calls = replicate EXECUTIONS Called_seqSumArrays @ [Called_initializeDevice]
                    @ replicate EXECUTIONS Called_parSumArrays @ [Called_checkEquality]\<rparr>
     \<and> read_array m (1 + 2 * nat ARRAYS_DIM) (nat ARRAYS_DIM) = Some (replicate (nat ARRAYS_DIM) 8)
     \<and> read_array m (1 + 3 * nat ARRAYS_DIM) (nat ARRAYS_DIM) =
         Some (map (uninitialised (runs e 9)) [0 ..< nat ARRAYS_DIM])"
proof -
  let ?n = "nat ARRAYS_DIM"
  let ?u = "uninitialised (runs e 9)"
  have n: "0 < ?n" using ARRAYS_DIM_pos by simp
  from main_vectors [of ?n]
  obtain a b cs cp h1 h2 h3 h4 where
    v: "vector ?n 3 empty_heap = (a, h1)" "vector ?n 5 h1 = (b, h2)"
      "vector ?n 0 h2 = (cs, h3)" "vector ?n 0 h3 = (cp, h4)"
    and addr: "a = 1" "b = 1 + ?n" "cs = 1 + 2 * ?n" "cp = 1 + 3 * ?n"
    and r: "read_array (cells h4) a ?n = Some (replicate ?n 3)"
      "read_array (cells h4) b ?n = Some (replicate ?n 5)"
      "read_array (cells h4) cs ?n = Some (replicate ?n 0)"
      "read_array (cells h4) cp ?n = Some (replicate ?n 0)"
    by blast
  define m1 where "m1 = (\<lambda>p. if cs \<le> p \<and> p < cs + ?n
      then Some (replicate ?n 3 ! (p - cs) + replicate ?n 5 ! (p - cs)) else cells h4 p)"
  have seq: "for_upto EXECUTIONS (\<lambda>i. seqSumArrays a b cs ARRAYS_DIM) (cells h4) = Inr m1"
    unfolding m1_def EXECUTIONS_Suc
  proof (rule seqSumArrays_repeated)
    show "read_array (cells h4) a ?n = Some (replicate ?n 3)" by fact
    show "read_array (cells h4) b ?n = Some (replicate ?n 5)" by fact
    show "read_array (cells h4) cs ?n = Some (replicate ?n 0)" by fact
    show "a + ?n \<le> cs \<or> cs + ?n \<le> a" using addr by simp
    show "b + ?n \<le> cs \<or> cs + ?n \<le> b" using addr by simp
  qed
  have "read_array m1 cs ?n =
      Some (map (\<lambda>i. replicate ?n 3 ! i + replicate ?n 5 ! i) [0 ..< ?n])"
    unfolding m1_def by (rule read_array_overwritten_fun)
  also have "map (\<lambda>i. replicate ?n 3 ! i + replicate ?n 5 ! i) [0 ..< ?n] = replicate ?n (8 :: int32)"
    by (rule nth_equalityI) simp_all
  finally have cs1: "read_array m1 cs ?n = Some (replicate ?n 8)" .
  have "read_array m1 cp ?n = read_array (cells h4) cp ?n"
    unfolding m1_def by (rule read_array_outside) (simp add: addr)
  then have cp1: "read_array m1 cp ?n = Some (replicate ?n 0)" using r by simp
  have "read_array m1 a ?n = read_array (cells h4) a ?n"
    unfolding m1_def by (rule read_array_outside) (simp add: addr)
  then have a1: "read_array m1 a ?n = Some (replicate ?n 3)" using r by simp
  have "read_array m1 b ?n = read_array (cells h4) b ?n"
    unfolding m1_def by (rule read_array_outside) (simp add: addr)
  then have b1: "read_array m1 b ?n = Some (replicate ?n 5)" using r by simp
  define g where "g = \<lparr>program = Some add_cl, ctxt = Some d, device = Some d\<rparr>"
  have init: "initializeDevice e \<lparr>program = None, ctxt = None, device = None\<rparr>
      \<lparr>cout = [], cerr = []\<rparr> = (Inr g, \<lparr>cout = [], cerr = []\<rparr>)"
    using initializeDevice_built [OF plat build] by (simp add: g_def)
  define m2 where "m2 = (\<lambda>q. if cp \<le> q \<and> q < cp + ?n then Some (?u (q - cp)) else m1 q)"
  have par: "for_upto EXECUTIONS (\<lambda>i. parSumArrays g (runs e i) a b cp ARRAYS_DIM) m1 = Inr m2"
    unfolding m2_def EXECUTIONS_Suc
  proof (rule parSumArrays_repeated)
    show "program g = Some add_cl" "ctxt g = Some d" "device g = Some d" by (simp_all add: g_def)
    show "0 < ARRAYS_DIM" by (rule ARRAYS_DIM_pos)
    show "read_array m1 a ?n = Some (replicate ?n 3)" by fact
    show "read_array m1 b ?n = Some (replicate ?n 5)" by fact
    show "read_array m1 cp ?n = Some (replicate ?n 0)" by fact
    show "a + ?n \<le> cp \<or> cp + ?n \<le> a" using addr by simp
    show "b + ?n \<le> cp \<or> cp + ?n \<le> b" using addr by simp
  qed
  have cp2: "read_array m2 cp ?n = Some (map ?u [0 ..< ?n])"
    unfolding m2_def by (rule read_array_overwritten_fun)
  have "read_array m2 cs ?n = read_array m1 cs ?n"
    unfolding m2_def by (rule read_array_outside) (simp add: addr)
  then have cs2: "read_array m2 cs ?n = Some (replicate ?n 8)" using cs1 by simp
  have "read_array m2 a ?n = read_array m1 a ?n"
    unfolding m2_def by (rule read_array_outside) (simp add: addr)
  then have a2: "read_array m2 a ?n = Some (replicate ?n 3)" using a1 by simp
  have "read_array m2 b ?n = read_array m1 b ?n"
    unfolding m2_def by (rule read_array_outside) (simp add: addr)
  then have b2: "read_array m2 b ?n = Some (replicate ?n 5)" using b1 by simp
  have "(\<forall>i<?n. replicate ?n (8 :: int32) ! i = map ?u [0 ..< ?n] ! i) = (\<forall>i<?n. ?u i = 8)"
    by auto
  then have chk: "checkEquality cs cp ARRAYS_DIM m2 = Inr ((\<forall>i<?n. ?u i = 8), m2)"
    using checkEquality_arrays [OF cs2 cp2] by simp
  have reads: "m2 a = Some 3" "m2 b = Some 5" "m2 cp = Some (?u 0)"
    using read_array_nth [OF a2 n] read_array_nth [OF b2 n] read_array_nth [OF cp2 n] n
    by simp_all
  have "main e =
     Inr \<lparr>status = 0,
          streams = \<lparr>cout =
            [Str ''status: '',
             Str (if \<forall>i<nat ARRAYS_DIM. uninitialised (runs e 9) i = 8
                  then ''SUCCESS!'' else ''FAILED!''), Endl,
             Str (''results: '' @ [NL, TAB] @ ''a[0] = ''), Num 3,
             Str ([NL, TAB] @ ''b[0] = ''), Num 5,
             Str ([NL, TAB] @ ''c[0] = a[0] + b[0] = ''),
             Num (sint (uninitialised (runs e 9) 0)), Endl,
             Str (''mean execution time: '' @ [NL, TAB] @ ''sequential: ''),
             Dbl (Some ((10000 * real_of_int (clock e 1 - clock e 0)) / real_of_int CLOCKS_PER_SEC
                         / real EXECUTIONS)),
             Str ('' ms;'' @ [NL, TAB] @ ''parallel: ''),
             Dbl (Some ((10000 * real_of_int (clock e 3 - clock e 2)) / real_of_int CLOCKS_PER_SEC
                         / real EXECUTIONS)),
             Str '' ms.'', Endl,
             Str ''performance gain: '',
             Dbl (fdiv (100 * ((10000 * real_of_int (clock e 1 - clock e 0)) / real_of_int CLOCKS_PER_SEC
                                  / real EXECUTIONS
                               - (10000 * real_of_int (clock e 3 - clock e 2)) / real_of_int CLOCKS_PER_SEC
                                  / real EXECUTIONS))
                       ((10000 * real_of_int (clock e 3 - clock e 2)) / real_of_int CLOCKS_PER_SEC
                          / real EXECUTIONS)),
             Str (''%'' @ [NL])],
            cerr = []\<rparr>,
          mem = m2, cs_data = cs, cp_data = cp,
          calls = replicate EXECUTIONS Called_seqSumArrays @ [Called_initializeDevice]
                    @ replicate EXECUTIONS Called_parSumArrays @ [Called_checkEquality]\<rparr>"
    by (simp add: main_def Let_def v for_upto_logged seq init par chk reads)
  then show ?thesis using cs2 cp2 addr by auto
qed

subsection \<open>Device selection\<close>

text \<open>
  Claim C6. \<open>getDefaultDevice\<close> of add.cpp and \<open>get_default_device\<close> of the hello-world
  program do what the device selector of the specification does: with no platform they
  fail with \<open>NoPlatformAvailable\<close>, with no device on the first platform they fail with
  \<open>NoDeviceAvailable\<close>, otherwise they return the first device of the first platform.
  A failure is the line \<open>diagnostic\<close> on the diagnostic stream and \<open>exit(1)\<close>. The result
  is a function of the enumerated platforms alone: nothing is scored or compared.
\<close>

theorem getDefaultDevice_select_device:
  "getDefaultDevice ps con =
     (case select_device ps of
        Inl f \<Rightarrow> (Inl 1, con\<lparr>cerr := cerr con @ diagnostic f\<rparr>)
      | Inr d \<Rightarrow> (Inr d, con))
   \<and> get_default_device ps con =
     (case select_device ps of
        Inl f \<Rightarrow> (Inl 1, con\<lparr>cerr := cerr con @ diagnostic f\<rparr>)
      | Inr d \<Rightarrow> (Inr d, con))"
  by (cases ps rule: select_device.cases)
    (simp_all add: getDefaultDevice_def get_default_device_def)

theorem getDefaultDevice_select_device_witness:
  "getDefaultDevice [] \<lparr>cout = [], cerr = []\<rparr> =
     (Inl 1, \<lparr>cout = [], cerr = [Str ''no platforms found!'', Endl]\<rparr>)
   \<and> getDefaultDevice [[], [device_A]] \<lparr>cout = [], cerr = []\<rparr> =
     (Inl 1, \<lparr>cout = [], cerr = [Str ''no devices found!'', Endl]\<rparr>)
   \<and> get_default_device [[device_A, device_A\<lparr>info_name := ''B''\<rparr>], []] \<lparr>cout = [], cerr = []\<rparr> =
     (Inr device_A, \<lparr>cout = [], cerr = []\<rparr>)"
  using getDefaultDevice_select_device [of "[]" "\<lparr>cout = [], cerr = []\<rparr>"]
    getDefaultDevice_select_device [of "[[], [device_A]]" "\<lparr>cout = [], cerr = []\<rparr>"]
    getDefaultDevice_select_device
      [of "[[device_A, device_A\<lparr>info_name := ''B''\<rparr>], []]" "\<lparr>cout = [], cerr = []\<rparr>"]
  by simp

subsection \<open>The parallel sum\<close>

text \<open>
  Had the program a kernel \<open>sumArrays\<close> with the body of \<open>add\<close>, the parallel sum would
  put \<open>a[i] + b[i]\<close> in \<open>c[i]\<close>, whatever the order of the work-items and whatever the
  output buffer held before.
\<close>

lemma parSumArrays_with_kernel:
  assumes g: "program g = Some ks" "map_of ks ''sumArrays'' = Some add"
      "ctxt g = Some d" "device g = Some d'"
    and N: "0 < N"
    and a: "read_array m a (nat N) = Some as" and b: "read_array m b (nat N) = Some bs"
    and c: "read_array m c (nat N) = Some cs"
    and sched: "distinct (schedule run)" "set (schedule run) = {..<nat N}"
  shows "parSumArrays g run a b c N m =
     Inr (\<lambda>q. if c \<le> q \<and> q < c + nat N then Some (as ! (q - c) + bs ! (q - c)) else m q)"
proof -
  let ?n = "nat N"
  let ?u = "map (uninitialised run) [0 ..< ?n]"
  have len: "length as = ?n" "length bs = ?n"
    using a b by (auto dest: read_array_length)
  have items: "run_items add (schedule run) as bs ?u = Some (map2 (+) as bs)"
    using sched len by (intro run_items_add_all [of _ ?n]) simp_all
  have alloc: "\<forall>i<length (map2 (+) as bs). m (c + i) \<noteq> None"
    using read_array_nth [OF c] len by simp
  have "(\<lambda>q. if c \<le> q \<and> q < c + length (map2 (+) as bs)
           then Some (map2 (+) as bs ! (q - c)) else m q) =
        (\<lambda>q. if c \<le> q \<and> q < c + ?n then Some (as ! (q - c) + bs ! (q - c)) else m q)"
  proof (rule ext)
    fix q
    show "(if c \<le> q \<and> q < c + length (map2 (+) as bs)
           then Some (map2 (+) as bs ! (q - c)) else m q) =
        (if c \<le> q \<and> q < c + ?n then Some (as ! (q - c) + bs ! (q - c)) else m q)"
    proof (cases "c \<le> q \<and> q < c + ?n")
      case True
      then have "q - c < ?n" by arith
      then show ?thesis using True len by simp
    next
      case False
      then show ?thesis using len by auto
    qed
  qed
  with write_array_allocated [OF alloc]
  have w: "write_array m c (map2 (+) as bs) =
      Some (\<lambda>q. if c \<le> q \<and> q < c + ?n then Some (as ! (q - c) + bs ! (q - c)) else m q)"
    by simp
  show ?thesis
    using g N a b w items
    by (simp add: parSumArrays_def Buffer_copy_def Buffer_def Kernel_def CommandQueue_def
        enqueueNDRangeKernel_def enqueueReadBuffer_def)
qed

lemma parSumArrays_with_kernel_is_seqSumArrays:
  assumes "program g = Some ks" "map_of ks ''sumArrays'' = Some add"
      "ctxt g = Some d" "device g = Some d'"
    and "0 < N"
    and "read_array m a (nat N) = Some as" and "read_array m b (nat N) = Some bs"
    and "read_array m c (nat N) = Some cs"
    and "distinct (schedule run)" "set (schedule run) = {..<nat N}"
    and "c \<le> a \<or> a + nat N \<le> c" and "c \<le> b \<or> b + nat N \<le> c"
  shows "parSumArrays g run a b c N m = seqSumArrays a b c N m"
  using parSumArrays_with_kernel [OF assms(1-10)] seqSumArrays_sums_aux [OF assms(6-8,11,12)]
  by simp

lemma scenario_arrays:
  "read_array scenario_memory 1 (nat 4) = Some [3, 3, 3, 3]"
  "read_array scenario_memory 5 (nat 4) = Some [5, 5, 5, 5]"
  "read_array scenario_memory 9 (nat 4) = Some [0, 0, 0, 0]"
  by (simp_all add: scenario_memory_def vector_def empty_heap_def eval_nat_numeral)

lemma parSumArrays_scenario:
  "parSumArrays built run 1 5 9 4 scenario_memory =
     Inr (\<lambda>q. if 9 \<le> q \<and> q < 9 + nat 4 then Some (uninitialised run (q - 9)) else scenario_memory q)"
  by (rule parSumArrays_add_cl [OF _ _ _ _ scenario_arrays]) (simp_all add: built_def)

text \<open>
  Claim C1 says that \<open>parSumArrays\<close> returns the array that \<open>seqSumArrays\<close> returns.
  The source asks the built program for a kernel named \<open>sumArrays\<close>, and add.cl defines
  \<open>add\<close> only: the kernel object is null, nothing is dispatched, and the output array
  receives whatever the fresh output buffer held. On \<open>a = [3,3,3,3]\<close>, \<open>b = [5,5,5,5]\<close>,
  with a buffer that is created holding zeros, the parallel sum yields \<open>[0,0,0,0]\<close> and the
  sequential sum \<open>[8,8,8,8]\<close>. (\<open>parSumArrays_with_kernel_is_seqSumArrays\<close> above is
  the claim for a program that has the kernel under the name asked for.)
\<close>

theorem parSumArrays_differs_from_seqSumArrays:
  "fst (initializeDevice working_env \<lparr>program = None, ctxt = None, device = None\<rparr>
          \<lparr>cout = [], cerr = []\<rparr>) = Inr built
   \<and> Kernel (program built) ''sumArrays'' = None
   \<and> read_array scenario_memory 1 4 = Some [3, 3, 3, 3]
   \<and> read_array scenario_memory 5 4 = Some [5, 5, 5, 5]
   \<and> (\<exists>mp ms. parSumArrays built zero_run 1 5 9 4 scenario_memory = Inr mp
         \<and> seqSumArrays 1 5 9 4 scenario_memory = Inr ms
         \<and> read_array mp 9 4 = Some [0, 0, 0, 0]
         \<and> read_array ms 9 4 = Some [8, 8, 8, 8])"
proof -
  have i: "fst (initializeDevice working_env \<lparr>program = None, ctxt = None, device = None\<rparr>
          \<lparr>cout = [], cerr = []\<rparr>) = Inr built"
    by (simp add: initializeDevice_def getDefaultDevice_def working_env_def built_def)
  have k: "Kernel (program built) ''sumArrays'' = None"
    by (simp add: built_def Kernel_sumArrays)
  have s: "seqSumArrays 1 5 9 4 scenario_memory =
      Inr (\<lambda>p. if 9 \<le> p \<and> p < 9 + nat 4
                then Some ([3, 3, 3, 3] ! (p - 9) + [5, 5, 5, 5] ! (p - 9)) else scenario_memory p)"
    by (rule seqSumArrays_sums_aux [OF scenario_arrays]) simp_all
  have "read_array (\<lambda>q. if 9 \<le> q \<and> q < 9 + nat 4 then Some (uninitialised zero_run (q - 9))
                         else scenario_memory q) 9 4 = Some [0, 0, 0, 0]"
    by (simp add: zero_run_def eval_nat_numeral)
  moreover have "read_array (\<lambda>p. if 9 \<le> p \<and> p < 9 + nat 4
                then Some ([3, 3, 3, 3] ! (p - 9) + [5, 5, 5, 5] ! (p - 9)) else scenario_memory p)
             9 4 = Some [8, 8, 8, 8 :: int32]"
    by (simp add: eval_nat_numeral)
  ultimately show ?thesis
    using i k s parSumArrays_scenario [of zero_run] scenario_arrays by simp
qed

text \<open>
  Claim C8 says that repeating \<open>parSumArrays\<close> on the same inputs gives the same output.
  Since no work-item is dispatched (see claim C1), the output is the undefined contents of
  the fresh output buffer and not a function of \<open>a\<close> and \<open>b\<close>: two repetitions on the same
  memory whose buffers are created with different contents return different arrays.
  (By \<open>parSumArrays_with_kernel\<close> above, the work-items of \<open>add\<close>, once dispatched, give
  the same array in every order and whatever the buffer held.)
\<close>

theorem parSumArrays_output_varies:
  "read_array scenario_memory 1 4 = Some [3, 3, 3, 3]
   \<and> read_array scenario_memory 5 4 = Some [5, 5, 5, 5]
   \<and> (\<exists>m1 m2. parSumArrays built zero_run 1 5 9 4 scenario_memory = Inr m1
         \<and> parSumArrays built junk_run 1 5 9 4 scenario_memory = Inr m2
         \<and> read_array m1 9 4 = Some [0, 0, 0, 0]
         \<and> read_array m2 9 4 = Some [57005, 57005, 57005, 57005])"
proof -
  have "read_array (\<lambda>q. if 9 \<le> q \<and> q < 9 + nat 4 then Some (uninitialised zero_run (q - 9))
                         else scenario_memory q) 9 4 = Some [0, 0, 0, 0]"
    by (simp add: zero_run_def eval_nat_numeral)
  moreover have "read_array (\<lambda>q. if 9 \<le> q \<and> q < 9 + nat 4 then Some (uninitialised junk_run (q - 9))
                         else scenario_memory q) 9 4 = Some [57005, 57005, 57005, 57005]"
    by (simp add: junk_run_def eval_nat_numeral)
  ultimately show ?thesis
    using parSumArrays_scenario [of zero_run] parSumArrays_scenario [of junk_run] scenario_arrays
    by simp
qed

subsection \<open>The benchmark and the other programs\<close>

lemma initializeDevice_no_device:
  assumes "no_device e"
  shows "initializeDevice e g con =
     (Inl 1, con\<lparr>cerr := cerr con @
        [Str (if get_platforms e = [] then ''no platforms found!'' else ''no devices found!''),
         Endl]\<rparr>)"
  using assms by (auto simp: no_device_def initializeDevice_def getDefaultDevice_def)

lemma initializeDevice_fatal:
  assumes "fatal e"
  shows "\<exists>con'. initializeDevice e g con = (Inl 1, con')"
proof (cases "no_device e")
  case True
  then show ?thesis by (simp add: initializeDevice_no_device)
next
  case False
  with assms obtain st lg where "build_failure e = Some (st, lg)"
    by (auto simp: fatal_def)
  with False show ?thesis
    by (simp add: no_device_def initializeDevice_def getDefaultDevice_def)
qed

lemma not_fatal_platforms:
  assumes "\<not> fatal e"
  shows "\<exists>d ds ps. get_platforms e = (d # ds) # ps" and "build_failure e = None"
proof -
  from assms have p: "get_platforms e \<noteq> []" "hd (get_platforms e) \<noteq> []"
    by (simp_all add: fatal_def no_device_def)
  from assms have b: "build_failure e = None"
    by (cases "build_failure e") (simp_all add: fatal_def)
  from p obtain p1 ps where "get_platforms e = p1 # ps" by (cases "get_platforms e") auto
  moreover with p obtain d ds where "p1 = d # ds" by (cases p1) auto
  ultimately show "\<exists>d ds ps. get_platforms e = (d # ds) # ps" by blast
  show "build_failure e = None" by fact
qed

lemma initializeDevice_runs:
  "initializeDevice (e\<lparr>runs := rs\<rparr>) g con = initializeDevice e g con"
  by (simp add: initializeDevice_def split: prod.splits sum.splits)

lemma main_exit_runs:
  assumes "initializeDevice e \<lparr>program = None, ctxt = None, device = None\<rparr>
      \<lparr>cout = [], cerr = []\<rparr> = (Inl st, con)"
  shows "main (e\<lparr>runs := rs\<rparr>) = main e"
  using assms
  by (simp add: main_def Let_def initializeDevice_runs split: prod.splits sum.splits)

text \<open>
  Claim C2, amended. When no platform is enumerated, or the first platform has no device,
  the benchmark exits with status 1, with nothing on the standard output and the line
  \<open>no platforms found!\<close> or \<open>no devices found!\<close> on the diagnostic stream. By then
  \<open>main\<close> has made these calls, in this order: \<open>seqSumArrays\<close> ten times, then
  \<open>initializeDevice\<close>, in which the process exits. So the exit comes before any call of
  \<open>parSumArrays\<close>: the vector \<open>cp\<close> still holds its zeros and the outcome does not
  depend on what the device would do in a dispatch. It comes after the sequential sums:
  at the exit every cell of \<open>cs\<close> holds \<open>3 + 5 = 8\<close>.
\<close>

theorem main_exits_without_device:
  assumes "no_device e"
  shows "\<exists>r. main e = Inr r \<and> status r = 1
     \<and> cout (streams r) = []
     \<and> cerr (streams r) =
         [Str (if get_platforms e = [] then ''no platforms found!'' else ''no devices found!''),
          Endl]
     \<and> read_array (mem r) (cs_data r) (nat ARRAYS_DIM) = Some (replicate (nat ARRAYS_DIM) 8)
     \<and> read_array (mem r) (cp_data r) (nat ARRAYS_DIM) = Some (replicate (nat ARRAYS_DIM) 0)
     \<and> (\<forall>rs. main (e\<lparr>runs := rs\<rparr>) = main e)
     \<and> calls r = replicate EXECUTIONS Called_seqSumArrays @ [Called_initializeDevice]
     \<and> Called_parSumArrays \<notin> set (calls r)"
proof -
  let ?con = "\<lparr>cout = [],
      cerr = [Str (if get_platforms e = [] then ''no platforms found!'' else ''no devices found!''),
              Endl]\<rparr>"
  have init: "initializeDevice e \<lparr>program = None, ctxt = None, device = None\<rparr>
      \<lparr>cout = [], cerr = []\<rparr> = (Inl 1, ?con)"
    using initializeDevice_no_device [OF assms] by simp
  from main_exit [OF init] main_exit_runs [OF init] show ?thesis by auto
qed

theorem main_exits_without_device_witness:
  "no_device no_platform_env \<and> no_device no_device_env
   \<and> (\<exists>r. main no_platform_env = Inr r \<and> status r = 1
         \<and> cerr (streams r) = [Str ''no platforms found!'', Endl]
         \<and> read_array (mem r) (cs_data r) (nat ARRAYS_DIM) = Some (replicate (nat ARRAYS_DIM) 8)
         \<and> read_array (mem r) (cp_data r) (nat ARRAYS_DIM) = Some (replicate (nat ARRAYS_DIM) 0)
         \<and> calls r = replicate 10 Called_seqSumArrays @ [Called_initializeDevice])
   \<and> (\<exists>r. main no_device_env = Inr r \<and> status r = 1
         \<and> cerr (streams r) = [Str ''no devices found!'', Endl]
         \<and> calls r = replicate 10 Called_seqSumArrays @ [Called_initializeDevice])"
proof -
  have h: "no_device no_platform_env" "no_device no_device_env"
    by (simp_all add: no_device_def no_platform_env_def no_device_env_def)
  have p: "get_platforms no_platform_env = []" "get_platforms no_device_env \<noteq> []"
    by (simp_all add: no_platform_env_def no_device_env_def)
  show ?thesis
    using main_exits_without_device [OF h(1)] main_exits_without_device [OF h(2)] h p
    by (auto simp: EXECUTIONS_def)
qed

text \<open>
  Claim C2 as stated, that the exit comes before any array-sum computation, fails: with
  no platform the benchmark exits with status 1 and the message, and by then the
  sequential sum has filled all of \<open>cs\<close>. The source runs the sequential sums first and
  calls \<open>initializeDevice\<close> after them.
\<close>

theorem main_sums_before_exit:
  "\<not> isl (main no_platform_env)
   \<and> status (projr (main no_platform_env)) = 1
   \<and> cerr (streams (projr (main no_platform_env))) = [Str ''no platforms found!'', Endl]
   \<and> read_array (mem (projr (main no_platform_env))) (cs_data (projr (main no_platform_env)))
        (nat ARRAYS_DIM) = Some (replicate (nat ARRAYS_DIM) (3 + 5))"
proof -
  have init: "initializeDevice no_platform_env \<lparr>program = None, ctxt = None, device = None\<rparr>
      \<lparr>cout = [], cerr = []\<rparr> = (Inl 1, \<lparr>cout = [], cerr = [Str ''no platforms found!'', Endl]\<rparr>)"
    by (simp add: initializeDevice_def getDefaultDevice_def no_platform_env_def)
  from main_exit [OF init] show ?thesis by auto
qed

lemma main_status:
  "\<exists>r. main e = Inr r \<and> status r = (if fatal e then 1 else 0)"
proof (cases "fatal e")
  case True
  from initializeDevice_fatal [OF True]
  obtain con where "initializeDevice e \<lparr>program = None, ctxt = None, device = None\<rparr>
      \<lparr>cout = [], cerr = []\<rparr> = (Inl 1, con)"
    by blast
  from main_exit [OF this] True show ?thesis by auto
next
  case False
  from not_fatal_platforms [OF False]
  obtain d ds ps where "get_platforms e = (d # ds) # ps" and "build_failure e = None"
    by blast
  from main_report [OF this] False show ?thesis by auto
qed

lemma hello_main_status: "fst (hello_main e) = (if fatal e then 1 else 0)"
proof (cases "get_platforms e")
  case Nil
  then show ?thesis
    by (simp add: hello_main_def get_default_device_def fatal_def no_device_def)
next
  case (Cons p ps)
  show ?thesis
  proof (cases p)
    case Nil
    with Cons show ?thesis
      by (simp add: hello_main_def get_default_device_def fatal_def no_device_def)
  next
    case (Cons d ds)
    with \<open>get_platforms e = p # ps\<close> show ?thesis
      by (cases "build_failure e")
        (auto simp: hello_main_def get_default_device_def fatal_def no_device_def)
  qed
qed

lemma info_main_no_device:
  "no_device e \<Longrightarrow> \<exists>con. info_main e = Inr (- 1, con)"
  by (auto simp: info_main_def no_device_def Let_def)

lemma info_main_device:
  "\<not> no_device e \<Longrightarrow> 3 \<le> length (info_workItems (hd (hd (get_platforms e)))) \<Longrightarrow>
   0 < info_computeUnits (hd (hd (get_platforms e))) \<Longrightarrow> \<exists>con. info_main e = Inr (0, con)"
  by (auto simp: info_main_def no_device_def Let_def)

text \<open>
  Claim C3, amended. The benchmark add.cpp and the hello-world program exit with status 1
  when there is no platform, no device or the build fails, and with 0 otherwise. The
  device-info program builds nothing; it returns \<open>-1\<close> when there is no platform or no
  device, and 0 when the first device of the first platform reports at least three
  work-item sizes and one compute unit.
\<close>

theorem exit_codes:
  "(\<exists>r. main e = Inr r \<and> status r = (if fatal e then 1 else 0))
   \<and> fst (hello_main e) = (if fatal e then 1 else 0)
   \<and> (no_device e \<longrightarrow> (\<exists>con. info_main e = Inr (- 1, con)))
   \<and> (\<not> no_device e \<and> 3 \<le> length (info_workItems (hd (hd (get_platforms e))))
        \<and> 0 < info_computeUnits (hd (hd (get_platforms e))) \<longrightarrow>
      (\<exists>con. info_main e = Inr (0, con)))"
  using main_status [of e] hello_main_status [of e] info_main_no_device [of e]
    info_main_device [of e]
  by blast

theorem exit_codes_witness:
  "fatal no_platform_env \<and> fatal no_device_env \<and> fatal broken_build_env \<and> \<not> fatal working_env
   \<and> no_device no_platform_env \<and> no_device no_device_env \<and> \<not> no_device working_env
   \<and> (\<exists>r. main no_platform_env = Inr r \<and> status r = 1)
   \<and> (\<exists>r. main no_device_env = Inr r \<and> status r = 1)
   \<and> (\<exists>r. main broken_build_env = Inr r \<and> status r = 1)
   \<and> (\<exists>r. main working_env = Inr r \<and> status r = 0)
   \<and> fst (hello_main no_platform_env) = 1 \<and> fst (hello_main no_device_env) = 1
   \<and> fst (hello_main broken_build_env) = 1 \<and> fst (hello_main working_env) = 0
   \<and> (\<exists>con. info_main no_platform_env = Inr (- 1, con))
   \<and> (\<exists>con. info_main no_device_env = Inr (- 1, con))
   \<and> (\<exists>con. info_main working_env = Inr (0, con))"
proof -
  have f: "fatal no_platform_env" "fatal no_device_env" "fatal broken_build_env"
    "\<not> fatal working_env"
    by (simp_all add: fatal_def no_device_def no_platform_env_def no_device_env_def
        broken_build_env_def working_env_def)
  have n: "no_device no_platform_env" "no_device no_device_env" "\<not> no_device working_env"
    by (simp_all add: no_device_def no_platform_env_def no_device_env_def working_env_def)
  have d: "3 \<le> length (info_workItems (hd (hd (get_platforms working_env))))"
    "0 < info_computeUnits (hd (hd (get_platforms working_env)))"
    by (simp_all add: working_env_def device_A_def)
  show ?thesis
    using exit_codes [of no_platform_env] exit_codes [of no_device_env]
      exit_codes [of broken_build_env] exit_codes [of working_env] f n d
    by simp
qed

text \<open>
  Claim C3 as stated, that every program exits with 1 on a fatal precondition failure,
  fails for the device-info program: with no platform, and with no device, its \<open>main\<close>
  returns \<open>-1\<close>.
\<close>

theorem info_main_returns_minus_one:
  "fatal no_platform_env
   \<and> info_main no_platform_env =
       Inr (- 1, \<lparr>cout = [], cerr = [Str ''no platforms found!'', Endl]\<rparr>)
   \<and> fatal no_device_env
   \<and> info_main no_device_env =
       Inr (- 1, \<lparr>cout = [], cerr = [Str ''no devices found!'', Endl]\<rparr>)"
  by (simp add: info_main_def fatal_def no_device_def no_platform_env_def no_device_env_def
      working_env_def)

text \<open>
  Claim C7. When the benchmark reaches its report, the last value it prints is
  \<open>100 * (seqTime - parTime) / parTime\<close>, which is \<open>(seqTime - parTime) / parTime * 100\<close>
  when \<open>parTime\<close> is not 0 and has no value when it is: the source divides without a
  test of \<open>parTime\<close>, prints the result and returns 0. \<open>parTime\<close> is 0 exactly when the
  clock reads the same before and after the parallel runs.
\<close>

theorem performance_gain_divides_by_parTime:
  assumes "get_platforms e = (d # ds) # ps" and "build_failure e = None"
    and "seqTime = (10000 * real_of_int (clock e 1 - clock e 0)) / real_of_int CLOCKS_PER_SEC
                     / real EXECUTIONS"
    and "parTime = (10000 * real_of_int (clock e 3 - clock e 2)) / real_of_int CLOCKS_PER_SEC
                     / real EXECUTIONS"
  shows "\<exists>r. main e = Inr r \<and> status r = 0
     \<and> drop 16 (cout (streams r)) =
         [Str ''performance gain: '',
          Dbl (if parTime = 0 then None else Some ((seqTime - parTime) / parTime * 100)),
          Str (''%'' @ [NL])]
     \<and> (parTime = 0 \<longleftrightarrow> clock e 3 = clock e 2)"
proof -
  have "fdiv (100 * (seqTime - parTime)) parTime =
      (if parTime = 0 then None else Some ((seqTime - parTime) / parTime * 100))"
    by (simp add: fdiv_def)
  moreover have "parTime = 0 \<longleftrightarrow> clock e 3 = clock e 2"
    unfolding assms(4) by (simp add: CLOCKS_PER_SEC_def EXECUTIONS_def)
  ultimately show ?thesis
    using main_report [OF assms(1,2)] assms(3,4) by auto
qed

theorem performance_gain_divides_by_parTime_witness:
  "(\<exists>r. main instant_env = Inr r \<and> status r = 0
      \<and> drop 16 (cout (streams r)) = [Str ''performance gain: '', Dbl None, Str (''%'' @ [NL])])
   \<and> (\<exists>r. main working_env = Inr r \<and> status r = 0
      \<and> drop 16 (cout (streams r)) = [Str ''performance gain: '', Dbl (Some 300), Str (''%'' @ [NL])])"
proof -
  have i: "get_platforms instant_env = (device_A # []) # []" "build_failure instant_env = None"
    "(52 :: real) = (10000 * real_of_int (clock instant_env 1 - clock instant_env 0))
        / real_of_int CLOCKS_PER_SEC / real EXECUTIONS"
    "(0 :: real) = (10000 * real_of_int (clock instant_env 3 - clock instant_env 2))
        / real_of_int CLOCKS_PER_SEC / real EXECUTIONS"
    by (simp_all add: instant_env_def working_env_def CLOCKS_PER_SEC_def EXECUTIONS_def)
  have w: "get_platforms working_env = (device_A # []) # []" "build_failure working_env = None"
    "(52 :: real) = (10000 * real_of_int (clock working_env 1 - clock working_env 0))
        / real_of_int CLOCKS_PER_SEC / real EXECUTIONS"
    "(13 :: real) = (10000 * real_of_int (clock working_env 3 - clock working_env 2))
        / real_of_int CLOCKS_PER_SEC / real EXECUTIONS"
    by (simp_all add: working_env_def CLOCKS_PER_SEC_def EXECUTIONS_def)
  show ?thesis
    using performance_gain_divides_by_parTime [OF i]
      performance_gain_divides_by_parTime [OF w]
    by auto
qed

text \<open>
  Claim C9. When a device is found and the build succeeds, the benchmark reaches its
  report with nothing on the diagnostic stream and returns 0, whatever \<open>checkEquality\<close>
  answered for \<open>cs\<close> and \<open>cp\<close>: the answer only selects between \<open>SUCCESS!\<close> and
  \<open>FAILED!\<close> in the status line.
\<close>

theorem main_returns_0_on_mismatch:
  assumes "get_platforms e = (d # ds) # ps" and "build_failure e = None"
  shows "\<exists>r equal. main e = Inr r
     \<and> checkEquality (cs_data r) (cp_data r) ARRAYS_DIM (mem r) = Inr (equal, mem r)
     \<and> take 3 (cout (streams r)) =
         [Str ''status: '', Str (if equal then ''SUCCESS!'' else ''FAILED!''), Endl]
     \<and> cerr (streams r) = []
     \<and> status r = 0"
proof -
  let ?n = "nat ARRAYS_DIM"
  let ?u = "uninitialised (runs e 9)"
  from main_report [OF assms] obtain m where
    m: "main e = Inr \<lparr>status = 0,
          streams = \<lparr>cout =
            [Str ''status: '',
             Str (if \<forall>i<nat ARRAYS_DIM. uninitialised (runs e 9) i = 8
                  then ''SUCCESS!'' else ''FAILED!''), Endl,
             Str (''results: '' @ [NL, TAB] @ ''a[0] = ''), Num 3,
             Str ([NL, TAB] @ ''b[0] = ''), Num 5,
             Str ([NL, TAB] @ ''c[0] = a[0] + b[0] = ''),
             Num (sint (uninitialised (runs e 9) 0)), Endl,
             Str (''mean execution time: '' @ [NL, TAB] @ ''sequential: ''),
             Dbl (Some ((10000 * real_of_int (clock e 1 - clock e 0)) / real_of_int CLOCKS_PER_SEC
                         / real EXECUTIONS)),
             Str ('' ms;'' @ [NL, TAB] @ ''parallel: ''),
             Dbl (Some ((10000 * real_of_int (clock e 3 - clock e 2)) / real_of_int CLOCKS_PER_SEC
                         / real EXECUTIONS)),
             Str '' ms.'', Endl,
             Str ''performance gain: '',
             Dbl (fdiv (100 * ((10000 * real_of_int (clock e 1 - clock e 0)) / real_of_int CLOCKS_PER_SEC
                                  / real EXECUTIONS
                               - (10000 * real_of_int (clock e 3 - clock e 2)) / real_of_int CLOCKS_PER_SEC
                                  / real EXECUTIONS))
                       ((10000 * real_of_int (clock e 3 - clock e 2)) / real_of_int CLOCKS_PER_SEC
                          / real EXECUTIONS)),
             Str (''%'' @ [NL])],
            cerr = []\<rparr>,
          mem = m, cs_data = 1 + 2 * nat ARRAYS_DIM, cp_data = 1 + 3 * nat ARRAYS_DIM,
          calls = replicate EXECUTIONS Called_seqSumArrays @ [Called_initializeDevice]
                    @ replicate EXECUTIONS Called_parSumArrays @ [Called_checkEquality]\<rparr>"
    and cs: "read_array m (1 + 2 * ?n) ?n = Some (replicate ?n 8)"
    and cp: "read_array m (1 + 3 * ?n) ?n = Some (map ?u [0 ..< ?n])"
    by blast
  have "(\<forall>i<?n. replicate ?n (8 :: int32) ! i = map ?u [0 ..< ?n] ! i) = (\<forall>i<?n. ?u i = 8)"
    by auto
  then have "checkEquality (1 + 2 * ?n) (1 + 3 * ?n) ARRAYS_DIM m = Inr ((\<forall>i<?n. ?u i = 8), m)"
    using checkEquality_arrays [OF cs cp] by simp
  with m show ?thesis by simp
qed

theorem main_returns_0_on_mismatch_witness:
  "\<exists>r. main working_env = Inr r
     \<and> checkEquality (cs_data r) (cp_data r) ARRAYS_DIM (mem r) = Inr (False, mem r)
     \<and> take 3 (cout (streams r)) = [Str ''status: '', Str ''FAILED!'', Endl]
     \<and> status r = 0"
proof -
  have w: "get_platforms working_env = (device_A # []) # []" "build_failure working_env = None"
    by (simp_all add: working_env_def)
  from main_returns_0_on_mismatch [OF w]
  obtain r equal where r: "main working_env = Inr r"
    "checkEquality (cs_data r) (cp_data r) ARRAYS_DIM (mem r) = Inr (equal, mem r)"
    "take 3 (cout (streams r)) =
         [Str ''status: '', Str (if equal then ''SUCCESS!'' else ''FAILED!''), Endl]"
    "status r = 0"
    by blast
  have "\<not> (\<forall>i<nat ARRAYS_DIM. uninitialised (runs working_env 9) i = 8)"
    using ARRAYS_DIM_pos by (auto simp: working_env_def intro!: exI [of _ 0])
  with main_report [OF w] r(1) have "take 3 (cout (streams r)) =
      [Str ''status: '', Str ''FAILED!'', Endl]"
    by auto
  with r(3) have "\<not> equal" by (cases equal) simp_all
  with r show ?thesis by auto
qed

end
